theory Spec2Isabelle
  imports Main
begin

section \<open>Values, documents and the notification channel\<close>

text \<open>
  The machine of \<^verbatim>\<open>src/FiniteStateMachine.ts\<close> is embedded field by field. State names
  are strings, as every signature of the class declares them. Payloads, alphabets and initial
  data are JSON values; a number stands for a finite JavaScript number and is kept as an
  integer, since the class never computes with it and only tests it for truthiness.
\<close>

datatype json =
    JNull
  | JBool bool
  | JNum int
  | JStr string
  | JArr "json list"
  | JObj "(string \<times> json) list"

text \<open>JavaScript truthiness, as tested by \<^verbatim>\<open>x ? a : b\<close> and \<^verbatim>\<open>if (x)\<close>.\<close>

fun truthy :: "json \<Rightarrow> bool" where
  "truthy JNull = False"
| "truthy (JBool b) = b"
| "truthy (JNum n) = (n \<noteq> 0)"
| "truthy (JStr s) = (s \<noteq> [])"
| "truthy (JArr xs) = True"
| "truthy (JObj kvs) = True"

text \<open>\<^verbatim>\<open>Object.prototype.toString.call(v) == '[object Array]'\<close> and
  \<^verbatim>\<open>... == '[object Object]'\<close>.\<close>

fun is_array :: "json \<Rightarrow> bool" where
  "is_array (JArr xs) = True"
| "is_array v = False"

fun is_object :: "json \<Rightarrow> bool" where
  "is_object (JObj kvs) = True"
| "is_object v = False"

text \<open>\<^verbatim>\<open>JSON.parse(JSON.stringify(v))\<close>: the value is rebuilt node by node.\<close>

primrec json_clone :: "json \<Rightarrow> json" where
  "json_clone JNull = JNull"
| "json_clone (JBool b) = JBool b"
| "json_clone (JNum n) = JNum n"
| "json_clone (JStr s) = JStr s"
| "json_clone (JArr xs) = JArr (map json_clone xs)"
| "json_clone (JObj kvs) = JObj (map (map_prod id json_clone) kvs)"

text \<open>\<^verbatim>\<open>Array.prototype.slice()\<close> with no argument: a new array with the same elements.\<close>

fun slice :: "json \<Rightarrow> json" where
  "slice (JArr xs) = JArr (map id xs)"
| "slice v = v"

subsection \<open>The store of mutable objects\<close>

text \<open>
  \<^verbatim>\<open>_initialData\<close> and \<^verbatim>\<open>_alphabet\<close> hold references. An object that the
  machine owns or hands out lives in a cell of the store; a reference is the index of its cell,
  a new object takes the next free index, and a caller who mutates an object it holds overwrites
  that cell.
\<close>

type_synonym addr = nat
type_synonym heap = "json list"

definition alloc :: "json \<Rightarrow> heap \<Rightarrow> addr \<times> heap" where
  "alloc v h = (length h, h @ [v])"

definition deref :: "heap \<Rightarrow> addr \<Rightarrow> json" where
  "deref h a = h ! a"

definition mutate :: "addr \<Rightarrow> json \<Rightarrow> heap \<Rightarrow> heap" where
  "mutate a v h = h[a := v]"

subsection \<open>Interfaces of the source\<close>

record IStateTransition =
  ev_from :: string
  ev_to :: string
  ev_data :: json

record IStateOutput =
  out_to :: string
  out_data :: "json option"

text \<open>
  A transition function is taken as its interface declares it: a pure, total function of the
  input and the state name. \<open>out_data = None\<close> is a result without a \<^verbatim>\<open>data\<close>
  property.
\<close>

type_synonym transFunction = "json \<Rightarrow> string \<Rightarrow> IStateOutput"

datatype js_error = TypeError | SyntaxError

text \<open>
  \<^verbatim>\<open>new Function('data', 'state', text)\<close> is a parameter of the model: it maps the
  source text of a body to the function it denotes, or to \<open>None\<close> when the constructor throws
  a SyntaxError.
\<close>

type_synonym compiler = "string \<Rightarrow> transFunction option"

subsection \<open>The machine document\<close>

text \<open>
  A document is an in-memory object. Each property is optional (\<open>None\<close>: the object has no
  such own property). The values that \<^verbatim>\<open>fromJson\<close> tests for their shape
  (\<^verbatim>\<open>alphabet\<close>, \<^verbatim>\<open>initialData\<close>, \<^verbatim>\<open>isAcceptance\<close>) are arbitrary JSON values;
  \<^verbatim>\<open>states\<close> is either an array of descriptors or some value that is not an array; the
  names are strings.
\<close>

record state_desc =
  sd_name :: "string option"
  sd_isAcceptance :: "json option"
  sd_transition :: "string option"

datatype states_value = StateArray "state_desc list" | NotAnArray

record document =
  d_name :: "string option"
  d_alphabet :: "json option"
  d_states :: "states_value option"
  d_initialState :: "string option"
  d_initialData :: "json option"

datatype node_ref = StateNode state_desc | ValueNode json

record IDecisionTreeAction =
  success :: bool
  node :: "node_ref option"
  action :: string

subsection \<open>The notification channel\<close>

text \<open>
  Modelled from the spec: the Notification Channel (the rxjs \<^verbatim>\<open>Subject\<close> and
  \<^verbatim>\<open>Subscription\<close> that the class imports). A listener is known by its identity. The
  channel keeps its registrations in subscription order; \<open>subscribe\<close> returns the handle of
  the new registration, \<open>unsubscribe\<close> removes that registration only, and
  \<open>Subject_next\<close> hands the event to every registered listener, in order, before it returns.
\<close>

type_synonym observer = nat
type_synonym Subscription = nat

record Subject =
  next_handle :: nat
  observers :: "(Subscription \<times> observer) list"

definition new_Subject :: Subject where
  "new_Subject = \<lparr>next_handle = 0, observers = []\<rparr>"

definition subscribe :: "observer \<Rightarrow> Subject \<Rightarrow> Subscription \<times> Subject" where
  "subscribe ob s =
     (next_handle s,
      s\<lparr>next_handle := Suc (next_handle s), observers := observers s @ [(next_handle s, ob)]\<rparr>)"

definition unsubscribe :: "Subscription \<Rightarrow> Subject \<Rightarrow> Subject" where
  "unsubscribe sub s = s\<lparr>observers := filter (\<lambda>(h, ob). h \<noteq> sub) (observers s)\<rparr>"

definition Subject_next :: "Subject \<Rightarrow> IStateTransition \<Rightarrow> (observer \<times> IStateTransition) list" where
  "Subject_next s ev = map (\<lambda>(h, ob). (ob, ev)) (observers s)"

section \<open>The machine\<close>

definition NO_STATE :: string where
  "NO_STATE = ''[FSM] NO_STATE''"

definition NO_DATA :: string where
  "NO_DATA = ''[FSM] NO_DATA''"

definition VALID :: string where
  "VALID = ''[FSM] DATA_VALID''"

definition MISSING_PROPS :: string where
  "MISSING_PROPS = ''[FSM] MISSING_PROPS''"

definition INVALID_DATA :: string where
  "INVALID_DATA = ''[FSM] INVALID_DATA''"

text \<open>
  The fields of the class, without the leading underscore of the protected ones.
  \<open>states\<close> is the ES6 \<^verbatim>\<open>Set\<close> and \<open>transitions\<close> the ES6 \<^verbatim>\<open>Map\<close>, both in
  insertion order. \<open>acceptanceStates\<close> is the hash created on demand: \<open>None\<close> while it
  is \<^verbatim>\<open>undefined\<close> or \<^verbatim>\<open>null\<close>, otherwise the list of its own property names.
  \<open>initialData\<close> and \<open>alphabet\<close> are \<^verbatim>\<open>null\<close> (\<open>None\<close>) or a reference.
\<close>

record FiniteStateMachine =
  name :: string
  curState :: string
  states :: "string list"
  transitions :: "(string \<times> transFunction) list"
  subject :: Subject
  subscriptions :: "Subscription list"
  acceptanceStates :: "string list option"
  initialState :: string
  initialData :: "addr option"
  alphabet :: "addr option"

definition constructor :: FiniteStateMachine where
  "constructor =
     \<lparr>name = [], curState = NO_STATE, states = [], transitions = [],
      subject = new_Subject, subscriptions = [], acceptanceStates = None,
      initialState = NO_STATE, initialData = None, alphabet = None\<rparr>"

subsection \<open>Accessors\<close>

definition numStates :: "FiniteStateMachine \<Rightarrow> nat" where
  "numStates m = length (states m)"

definition numTransitions :: "FiniteStateMachine \<Rightarrow> nat" where
  "numTransitions m = length (transitions m)"

definition currentState :: "FiniteStateMachine \<Rightarrow> string" where
  "currentState m = curState m"

definition get_states :: "FiniteStateMachine \<Rightarrow> string list" where
  "get_states m = states m"

definition get_initialState :: "FiniteStateMachine \<Rightarrow> string" where
  "get_initialState m = initialState m"

text \<open>\<^verbatim>\<open>this._initialData ? JSON.parse(JSON.stringify(this._initialData)) : null\<close>: the
  result is \<^verbatim>\<open>null\<close> or a reference to a new object.\<close>

definition get_initialData :: "FiniteStateMachine \<Rightarrow> heap \<Rightarrow> addr option \<times> heap" where
  "get_initialData m h =
     (case initialData m of
        None \<Rightarrow> (None, h)
      | Some a \<Rightarrow> (let (r, h') = alloc (json_clone (deref h a)) h in (Some r, h')))"

definition isAcceptance :: "FiniteStateMachine \<Rightarrow> bool" where
  "isAcceptance m =
     (case acceptanceStates m of
        None \<Rightarrow> False
      | Some acc \<Rightarrow> curState m \<in> set acc)"

text \<open>\<^verbatim>\<open>return this._alphabet.slice()\<close>: calling a method on \<^verbatim>\<open>null\<close> throws a
  TypeError.\<close>

definition get_alphabet :: "FiniteStateMachine \<Rightarrow> heap \<Rightarrow> (js_error + addr) \<times> heap" where
  "get_alphabet m h =
     (case alphabet m of
        None \<Rightarrow> (Inl TypeError, h)
      | Some a \<Rightarrow> (let (r, h') = alloc (slice (deref h a)) h in (Inr r, h')))"

subsection \<open>States, transitions, subscribers\<close>

text \<open>\<^verbatim>\<open>Set.prototype.add\<close>.\<close>

definition Set_add :: "string \<Rightarrow> string list \<Rightarrow> string list" where
  "Set_add x xs = (if x \<in> set xs then xs else xs @ [x])"

text \<open>\<^verbatim>\<open>hash[key] = true\<close> on an object literal. The key \<^verbatim>\<open>__proto__\<close> reaches the
  inherited setter, which ignores a value that is not an object, so no own property is made.\<close>

definition set_property :: "string \<Rightarrow> string list \<Rightarrow> string list" where
  "set_property key props =
     (if key = ''__proto__'' then props
      else if key \<in> set props then props else props @ [key])"

definition addState :: "string option \<Rightarrow> bool \<Rightarrow> FiniteStateMachine \<Rightarrow> FiniteStateMachine" where
  "addState stateName acceptance m =
     (case stateName of
        None \<Rightarrow> m
      | Some n \<Rightarrow>
          if n \<noteq> [] then
            (let m1 = m\<lparr>states := Set_add n (states m)\<rparr>
             in if acceptance
                then m1\<lparr>acceptanceStates :=
                          Some (set_property n (case acceptanceStates m1 of None \<Rightarrow> [] | Some acc \<Rightarrow> acc))\<rparr>
                else m1)
          else m)"

text \<open>\<^verbatim>\<open>addTransition\<close> returns its boolean together with the machine.\<close>

definition addTransition ::
  "string \<Rightarrow> transFunction \<Rightarrow> FiniteStateMachine \<Rightarrow> bool \<times> FiniteStateMachine" where
  "addTransition from to m =
     (let hasFrom = (from \<in> set (states m))
      in if \<not> hasFrom then (False, m)
         else if from \<in> set (map fst (transitions m)) then (False, m)
         else (True, m\<lparr>transitions := transitions m @ [(from, to)]\<rparr>))"

definition addSubscriber :: "observer option \<Rightarrow> FiniteStateMachine \<Rightarrow> FiniteStateMachine" where
  "addSubscriber observer m =
     (case observer of
        None \<Rightarrow> m
      | Some ob \<Rightarrow>
          (let (sub, s) = subscribe ob (subject m)
           in m\<lparr>subject := s, subscriptions := subscriptions m @ [sub]\<rparr>))"

subsection \<open>Stepping\<close>

text \<open>
  What a listener receives. \<open>seen_state\<close> is the value of \<^verbatim>\<open>currentState\<close> that the
  listener reads from the machine while its callback runs, that is, the field as it stands when
  \<^verbatim>\<open>this._subject.next\<close> is called.
\<close>

record delivery =
  to_observer :: observer
  event :: IStateTransition
  seen_state :: string

text \<open>\<^verbatim>\<open>next\<close>. The result is the returned value (\<open>None\<close> for \<^verbatim>\<open>null\<close>), what the
  listeners received during the call, in order, and the machine after the call.\<close>

definition fsm_next ::
  "json \<Rightarrow> string option \<Rightarrow> FiniteStateMachine
     \<Rightarrow> IStateOutput option \<times> delivery list \<times> FiniteStateMachine" where
  "fsm_next input initialState_arg m =
     (let m1 = (case initialState_arg of
                  None \<Rightarrow> m
                | Some s \<Rightarrow> if s \<noteq> [] then m\<lparr>curState := s\<rparr> else m)
      in case map_of (transitions m1) (curState m1) of
           Some transFcn \<Rightarrow>
             (let toState = transFcn input (curState m1);
                  ev = \<lparr>ev_from = curState m1, ev_to = out_to toState,
                        ev_data = (case out_data toState of
                                     None \<Rightarrow> JNull
                                   | Some d \<Rightarrow> if truthy d then d else JNull)\<rparr>;
                  sent = map (\<lambda>(ob, e). \<lparr>to_observer = ob, event = e, seen_state = curState m1\<rparr>)
                             (Subject_next (subject m1) ev);
                  m2 = m1\<lparr>curState := out_to toState\<rparr>
              in (Some \<lparr>out_to = curState m2,
                        out_data = Some (case out_data toState of
                                           None \<Rightarrow> input
                                         | Some d \<Rightarrow> if truthy d then d else input)\<rparr>,
                  sent, m2))
         | None \<Rightarrow> (None, [], m1))"

subsection \<open>Clearing\<close>

text \<open>Every subscription is cancelled on the old channel, which is then replaced by a new
  one; the old channel is no longer referenced by the machine.\<close>

definition clear :: "FiniteStateMachine \<Rightarrow> FiniteStateMachine" where
  "clear m =
     (let old = fold unsubscribe (subscriptions m) (subject m)
      in m\<lparr>states := [], transitions := [], subscriptions := [], subject := new_Subject,
           curState := NO_STATE, acceptanceStates := None, initialState := NO_STATE,
           initialData := None, alphabet := None\<rparr>)"

subsection \<open>Loading a document\<close>

text \<open>The loop over the descriptors (lines 308 to 331). It ends with \<open>Inr None\<close> when every
  descriptor was registered, with \<open>Inr (Some state)\<close> at the first descriptor that lacks a
  property (the early return, which reports that descriptor), and with \<open>Inl SyntaxError\<close>
  when the Function constructor throws. The machine is returned as the loop left it.\<close>

fun process_states ::
  "compiler \<Rightarrow> state_desc list \<Rightarrow> FiniteStateMachine
     \<Rightarrow> (js_error + state_desc option) \<times> FiniteStateMachine" where
  "process_states C [] m = (Inr None, m)"
| "process_states C (state # rest) m =
     (case (sd_name state, sd_isAcceptance state, sd_transition state) of
        (Some nm, Some acc, Some body) \<Rightarrow>
          (case C body of
             None \<Rightarrow> (Inl SyntaxError, m)
           | Some fcn \<Rightarrow>
               process_states C rest (snd (addTransition nm fcn (addState (Some nm) (truthy acc) m))))
      | _ \<Rightarrow> (Inr (Some state), m))"

text \<open>The block on \<^verbatim>\<open>initialData\<close> and the final return (lines 334 to 354).\<close>

definition load_initialData ::
  "document \<Rightarrow> FiniteStateMachine \<Rightarrow> heap \<Rightarrow> IDecisionTreeAction \<times> FiniteStateMachine \<times> heap" where
  "load_initialData d m h =
     (case d_initialData d of
        Some tmp \<Rightarrow>
          if is_object tmp then
            (let (a, h') = alloc (json_clone tmp) h
             in (\<lparr>success = True, node = None, action = VALID\<rparr>, m\<lparr>initialData := Some a\<rparr>, h'))
          else (\<lparr>success = False, node = Some (ValueNode tmp), action = INVALID_DATA\<rparr>, m, h)
      | None \<Rightarrow> (\<lparr>success = True, node = None, action = VALID\<rparr>, m, h))"

text \<open>The method itself: the checks on the document (lines 244 to 297), the assignments of
  \<^verbatim>\<open>name\<close>, \<^verbatim>\<open>_initialState\<close> and \<^verbatim>\<open>_curState\<close> (lines 299 to 301), the loop and
  the block on \<^verbatim>\<open>initialData\<close>. A returned action is \<open>Inr\<close>, an exception \<open>Inl\<close>; the
  machine and the store come back as the call left them.\<close>

definition fromJson ::
  "compiler \<Rightarrow> document option \<Rightarrow> FiniteStateMachine \<Rightarrow> heap
     \<Rightarrow> (js_error + IDecisionTreeAction) \<times> FiniteStateMachine \<times> heap" where
  "fromJson C data m h =
     (case data of
        None \<Rightarrow> (Inr \<lparr>success = False, node = None, action = NO_DATA\<rparr>, m, h)
      | Some d \<Rightarrow>
          if d_name d = None \<or> d_alphabet d = None \<or> d_states d = None
          then (Inr \<lparr>success = False, node = None, action = MISSING_PROPS\<rparr>, m, h)
          else
            (let tmp = the (d_alphabet d)
             in if is_array tmp then
                  (let (a, h1) = alloc (slice tmp) h;
                       m1 = m\<lparr>alphabet := Some a\<rparr>
                   in case the (d_states d) of
                        StateArray sts \<Rightarrow>
                          if length sts = 0
                          then (Inr \<lparr>success = False, node = None, action = NO_STATE\<rparr>, m1, h1)
                          else
                            (let m2 = m1\<lparr>name := the (d_name d)\<rparr>;
                                 m3 = m2\<lparr>initialState :=
                                           (case d_initialState d of Some s \<Rightarrow> s | None \<Rightarrow> NO_STATE)\<rparr>;
                                 m4 = m3\<lparr>curState := initialState m3\<rparr>
                             in case process_states C sts m4 of
                                  (Inl err, m5) \<Rightarrow> (Inl err, m5, h1)
                                | (Inr (Some state), m5) \<Rightarrow>
                                    (Inr \<lparr>success = False, node = Some (StateNode state),
                                          action = INVALID_DATA\<rparr>, m5, h1)
                                | (Inr None, m5) \<Rightarrow>
                                    (let (res, m6, h2) = load_initialData d m5 h1
                                     in (Inr res, m6, h2)))
                      | NotAnArray \<Rightarrow>
                          (Inr \<lparr>success = False, node = None, action = INVALID_DATA\<rparr>, m1, h1))
                else (Inr \<lparr>success = False, node = None, action = INVALID_DATA\<rparr>, m, h)))"

text \<open>The static factory. \<open>Inr None\<close> is the \<^verbatim>\<open>null\<close> result.\<close>

definition create ::
  "compiler \<Rightarrow> document option \<Rightarrow> string option \<Rightarrow> heap
     \<Rightarrow> (js_error + FiniteStateMachine option) \<times> heap" where
  "create C data name_arg h =
     (case data of
        None \<Rightarrow> (Inr None, h)
      | Some d \<Rightarrow>
          (case fromJson C (Some d) constructor h of
             (Inl err, machine, h') \<Rightarrow> (Inl err, h')
           | (Inr result, machine, h') \<Rightarrow>
               if success result
               then (Inr (Some (machine\<lparr>name := (case name_arg of Some n \<Rightarrow> n | None \<Rightarrow> [])\<rparr>)), h')
               else (Inr None, h')))"

section \<open>Sequences of calls\<close>

text \<open>
  A client drives one machine through its public methods. The world is the machine, the store,
  and the record of every event handed to a listener so far, oldest first. A call that throws
  leaves the machine as it was when the exception was raised.
\<close>

datatype call =
    AddState "string option" bool
  | AddTransition string transFunction
  | AddSubscriber "observer option"
  | FromJson "document option"
  | Next json "string option"
  | Clear

record world =
  machine :: FiniteStateMachine
  store :: heap
  delivered :: "delivery list"

fun exec :: "compiler \<Rightarrow> call \<Rightarrow> world \<Rightarrow> world" where
  "exec C (AddState n acc) w = w\<lparr>machine := addState n acc (machine w)\<rparr>"
| "exec C (AddTransition from to) w = w\<lparr>machine := snd (addTransition from to (machine w))\<rparr>"
| "exec C (AddSubscriber ob) w = w\<lparr>machine := addSubscriber ob (machine w)\<rparr>"
| "exec C (FromJson data) w =
     (case fromJson C data (machine w) (store w) of
        (res, m, h) \<Rightarrow> w\<lparr>machine := m, store := h\<rparr>)"
| "exec C (Next input st) w =
     (case fsm_next input st (machine w) of
        (res, sent, m) \<Rightarrow> w\<lparr>machine := m, delivered := delivered w @ sent\<rparr>)"
| "exec C Clear w = w\<lparr>machine := clear (machine w)\<rparr>"

definition run :: "compiler \<Rightarrow> call list \<Rightarrow> world \<Rightarrow> world" where
  "run C calls w = fold (exec C) calls w"

definition new_world :: "heap \<Rightarrow> world" where
  "new_world h = \<lparr>machine = constructor, store = h, delivered = []\<rparr>"

section \<open>Vocabulary of the properties\<close>

text \<open>The state that a call of \<^verbatim>\<open>next\<close> works from: \<^verbatim>\<open>_curState\<close> once lines 432 to
  434 have applied the optional second argument.\<close>

definition state_in_force :: "string option \<Rightarrow> FiniteStateMachine \<Rightarrow> string" where
  "state_in_force st m =
     (case st of None \<Rightarrow> curState m | Some s \<Rightarrow> if s \<noteq> [] then s else curState m)"

text \<open>A name is known to a machine when it is the sentinel or a member of the state set.\<close>

definition known :: "string \<Rightarrow> FiniteStateMachine \<Rightarrow> bool" where
  "known s m \<longleftrightarrow> s = NO_STATE \<or> s \<in> set (states m)"

text \<open>The shape of the state and transition store: no name twice, and every rule attached to
  a name of the state set.\<close>

definition store_inv :: "FiniteStateMachine \<Rightarrow> bool" where
  "store_inv m \<longleftrightarrow>
     distinct (states m) \<and> distinct (map fst (transitions m)) \<and>
     set (map fst (transitions m)) \<subseteq> set (states m)"

text \<open>What a caller sees when it reads a property and looks into the object it got.\<close>

definition read_initialData :: "FiniteStateMachine \<Rightarrow> heap \<Rightarrow> json option" where
  "read_initialData m h =
     (case get_initialData m h of
        (None, h') \<Rightarrow> None
      | (Some r, h') \<Rightarrow> Some (deref h' r))"

definition read_alphabet :: "FiniteStateMachine \<Rightarrow> heap \<Rightarrow> js_error + json" where
  "read_alphabet m h =
     (case get_alphabet m h of
        (Inl err, h') \<Rightarrow> Inl err
      | (Inr r, h') \<Rightarrow> Inr (deref h' r))"

text \<open>Every reference held by the machine points into the store.\<close>

definition refs_valid :: "FiniteStateMachine \<Rightarrow> heap \<Rightarrow> bool" where
  "refs_valid m h \<longleftrightarrow>
     (case initialData m of None \<Rightarrow> True | Some a \<Rightarrow> a < length h) \<and>
     (case alphabet m of None \<Rightarrow> True | Some a \<Rightarrow> a < length h)"

text \<open>The events that one listener has received.\<close>

definition deliveries_to :: "observer \<Rightarrow> world \<Rightarrow> delivery list" where
  "deliveries_to ob w = filter (\<lambda>d. to_observer d = ob) (delivered w)"

text \<open>The descriptors of a list are registered in a machine: each carries a name, and a name
  that is not empty is in the state set and has a rule.\<close>

definition registered :: "state_desc list \<Rightarrow> FiniteStateMachine \<Rightarrow> bool" where
  "registered sts m =
     list_all (\<lambda>p. case sd_name p of
                      None \<Rightarrow> False
                    | Some n \<Rightarrow> n \<noteq> [] \<longrightarrow> n \<in> set (states m) \<and> n \<in> set (map fst (transitions m)))
              sts"

text \<open>The machine as \<^verbatim>\<open>fromJson\<close> has set it when the loop over the descriptors starts
  (lines 266 and 299 to 301).\<close>

definition at_loop_entry :: "document \<Rightarrow> FiniteStateMachine \<Rightarrow> heap \<Rightarrow> FiniteStateMachine" where
  "at_loop_entry d m h =
     m\<lparr>alphabet := Some (length h), name := the (d_name d),
       initialState := (case d_initialState d of Some s \<Rightarrow> s | None \<Rightarrow> NO_STATE),
       curState := (case d_initialState d of Some s \<Rightarrow> s | None \<Rightarrow> NO_STATE)\<rparr>"

text \<open>
  The obligations that \<^verbatim>\<open>next\<close> and \<^verbatim>\<open>fromJson\<close> leave to their caller, since neither
  checks them: a state forced through the second argument of \<^verbatim>\<open>next\<close> is known, the target
  returned by the rule that fires is known, and the \<^verbatim>\<open>initialState\<close> of a document is known
  to the machine by the time \<^verbatim>\<open>fromJson\<close> returns.
\<close>

fun validated :: "compiler \<Rightarrow> call \<Rightarrow> world \<Rightarrow> bool" where
  "validated C (Next input st) w =
     ((case st of None \<Rightarrow> True | Some s \<Rightarrow> s \<noteq> [] \<longrightarrow> known s (machine w)) \<and>
      (case map_of (transitions (machine w)) (state_in_force st (machine w)) of
         None \<Rightarrow> True
       | Some rule \<Rightarrow> known (out_to (rule input (state_in_force st (machine w)))) (machine w)))"
| "validated C (FromJson data) w =
     (case data of
        None \<Rightarrow> True
      | Some d \<Rightarrow>
          (case d_initialState d of
             None \<Rightarrow> True
           | Some s \<Rightarrow> known s (machine (exec C (FromJson data) w))))"
| "validated C c w = True"

fun validated_run :: "compiler \<Rightarrow> call list \<Rightarrow> world \<Rightarrow> bool" where
  "validated_run C [] w = True"
| "validated_run C (c # cs) w = (validated C c w \<and> validated_run C cs (exec C c w))"

subsection \<open>Concrete machines and documents\<close>

text \<open>Two transition functions, and a compiler that knows their bodies and takes every other
  text as malformed.\<close>

definition stay :: transFunction where
  "stay data state = \<lparr>out_to = state, out_data = None\<rparr>"

definition to_c :: transFunction where
  "to_c data state = \<lparr>out_to = ''c'', out_data = Some data\<rparr>"

definition demo_compiler :: compiler where
  "demo_compiler body =
     (if body = ''return {to: state};'' then Some stay
      else if body = ''return {to: 'c', data: data};'' then Some to_c
      else None)"

definition state_S1 :: state_desc where
  "state_S1 = \<lparr>sd_name = Some ''S1'', sd_isAcceptance = Some (JBool True),
               sd_transition = Some ''return {to: state};''\<rparr>"

definition state_no_rule :: state_desc where
  "state_no_rule = \<lparr>sd_name = Some ''S2'', sd_isAcceptance = Some (JBool False),
                    sd_transition = None\<rparr>"

definition doc_with_data :: document where
  "doc_with_data =
     \<lparr>d_name = Some ''First'', d_alphabet = Some (JArr [JStr ''a'', JStr ''b'']),
      d_states = Some (StateArray [state_S1]), d_initialState = Some ''S1'',
      d_initialData = Some (JObj [(''amt'', JNum 68)])\<rparr>"

definition doc_without_data :: document where
  "doc_without_data =
     \<lparr>d_name = Some ''Second'', d_alphabet = Some (JArr [JStr ''p'']),
      d_states = Some (StateArray [state_S1]), d_initialState = None,
      d_initialData = None\<rparr>"

definition doc_second_state_broken :: document where
  "doc_second_state_broken =
     \<lparr>d_name = Some ''Broken'', d_alphabet = Some (JArr [JStr ''a'']),
      d_states = Some (StateArray [state_S1, state_no_rule]), d_initialState = Some ''S1'',
      d_initialData = None\<rparr>"

definition doc_unknown_initial :: document where
  "doc_unknown_initial =
     \<lparr>d_name = Some ''Lost'', d_alphabet = Some (JArr []),
      d_states = Some (StateArray [state_S1]), d_initialState = Some ''S9'',
      d_initialData = None\<rparr>"

definition coin_machine :: FiniteStateMachine where
  "coin_machine =
     machine (run demo_compiler
       [AddState (Some ''q'') False, AddState (Some ''c'') True, AddTransition ''q'' to_c,
        AddSubscriber (Some 7), AddSubscriber (Some 8)] (new_world []))"

definition world_before_clear :: world where
  "world_before_clear =
     run demo_compiler
       [AddState (Some ''q'') False, AddState (Some ''c'') True, AddTransition ''q'' to_c,
        AddSubscriber (Some 7), Next (JStr ''coin'') (Some ''q'')] (new_world [])"

definition calls_after_clear :: "call list" where
  "calls_after_clear =
     [AddState (Some ''q'') False, AddTransition ''q'' to_c, AddSubscriber (Some 8),
      Next (JStr ''coin'') (Some ''q'')]"

definition one_state_machine :: FiniteStateMachine where
  "one_state_machine = machine (run demo_compiler [AddState (Some ''S1'') False] (new_world []))"

definition recleared_machine :: FiniteStateMachine where
  "recleared_machine =
     machine (run demo_compiler
       [AddState (Some ''S1'') False, AddTransition ''S1'' stay, Clear, AddState (Some ''S1'') False]
       (new_world []))"

definition loaded_world :: world where
  "loaded_world = run demo_compiler [FromJson (Some doc_with_data)] (new_world [])"

definition reloaded_world :: world where
  "reloaded_world =
     run demo_compiler [FromJson (Some doc_with_data), FromJson (Some doc_without_data)] (new_world [])"

definition half_loaded_machine :: FiniteStateMachine where
  "half_loaded_machine =
     \<lparr>name = ''Broken'', curState = ''S1'', states = [''S1''], transitions = [(''S1'', stay)],
      subject = new_Subject, subscriptions = [], acceptanceStates = Some [''S1''],
      initialState = ''S1'', initialData = None, alphabet = Some 0\<rparr>"

definition validated_calls :: "call list" where
  "validated_calls =
     [AddState (Some ''q'') False, AddState (Some ''c'') True, AddTransition ''q'' to_c,
      Next (JStr ''coin'') (Some ''q''), FromJson (Some doc_with_data)]"

section \<open>Auxiliary facts\<close>

subsection \<open>One step\<close>

lemma override_eq:
  "(case st of None \<Rightarrow> m | Some s \<Rightarrow> if s \<noteq> [] then m\<lparr>curState := s\<rparr> else m)
     = m\<lparr>curState := state_in_force st m\<rparr>"
  by (cases st) (simp_all add: state_in_force_def)

lemma next_no_rule:
  "map_of (transitions m) (state_in_force st m) = None \<Longrightarrow>
   fsm_next input st m = (None, [], m\<lparr>curState := state_in_force st m\<rparr>)"
  unfolding fsm_next_def override_eq by (simp add: Let_def)

lemma next_rule:
  "map_of (transitions m) (state_in_force st m) = Some rule \<Longrightarrow>
   fsm_next input st m =
     (let c = state_in_force st m; out = rule input c;
          ev = \<lparr>ev_from = c, ev_to = out_to out,
                ev_data = (case out_data out of None \<Rightarrow> JNull | Some d \<Rightarrow> if truthy d then d else JNull)\<rparr>
      in (Some \<lparr>out_to = out_to out,
                out_data = Some (case out_data out of None \<Rightarrow> input | Some d \<Rightarrow> if truthy d then d else input)\<rparr>,
          map (\<lambda>(h, ob). \<lparr>to_observer = ob, event = ev, seen_state = c\<rparr>) (observers (subject m)),
          m\<lparr>curState := out_to out\<rparr>))"
  unfolding fsm_next_def override_eq by (simp add: Let_def Subject_next_def split_def comp_def)

subsection \<open>The state and transition store\<close>

lemma Set_add_set [simp]: "set (Set_add x xs) = insert x (set xs)"
  by (auto simp: Set_add_def)

lemma Set_add_distinct [simp]: "distinct (Set_add x xs) = distinct xs"
  by (auto simp: Set_add_def)

lemma addState_fields [simp]:
  "transitions (addState n a m) = transitions m"
  "subject (addState n a m) = subject m"
  "subscriptions (addState n a m) = subscriptions m"
  "curState (addState n a m) = curState m"
  "name (addState n a m) = name m"
  "initialState (addState n a m) = initialState m"
  "initialData (addState n a m) = initialData m"
  "alphabet (addState n a m) = alphabet m"
  by (simp_all add: addState_def Let_def split: option.splits)

lemma addState_states:
  "states (addState n a m) = (case n of None \<Rightarrow> states m | Some s \<Rightarrow> if s \<noteq> [] then Set_add s (states m) else states m)"
  by (simp add: addState_def Let_def split: option.splits)

lemma addState_states_mono: "set (states m) \<subseteq> set (states (addState n a m))"
  by (auto simp: addState_states split: option.splits)

lemma addState_distinct [simp]: "distinct (states (addState n a m)) = distinct (states m)"
  by (simp add: addState_states split: option.splits)

lemma addTransition_fields [simp]:
  "states (snd (addTransition f t m)) = states m"
  "subject (snd (addTransition f t m)) = subject m"
  "subscriptions (snd (addTransition f t m)) = subscriptions m"
  "curState (snd (addTransition f t m)) = curState m"
  "name (snd (addTransition f t m)) = name m"
  "initialState (snd (addTransition f t m)) = initialState m"
  "initialData (snd (addTransition f t m)) = initialData m"
  "alphabet (snd (addTransition f t m)) = alphabet m"
  "acceptanceStates (snd (addTransition f t m)) = acceptanceStates m"
  by (simp_all add: addTransition_def Let_def)

lemma addTransition_result:
  "addTransition f t m =
     (if f \<in> set (states m) \<and> f \<notin> set (map fst (transitions m))
      then (True, m\<lparr>transitions := transitions m @ [(f, t)]\<rparr>) else (False, m))"
  by (simp add: addTransition_def Let_def)

lemma addTransition_keys_mono:
  "set (map fst (transitions m)) \<subseteq> set (map fst (transitions (snd (addTransition f t m))))"
  by (auto simp: addTransition_result)

lemma store_inv_addState: "store_inv m \<Longrightarrow> store_inv (addState n a m)"
  using addState_states_mono[of m n a] by (auto simp: store_inv_def)

lemma store_inv_addTransition: "store_inv m \<Longrightarrow> store_inv (snd (addTransition f t m))"
  by (auto simp: store_inv_def addTransition_result)

subsection \<open>The loop over the descriptors\<close>

lemma process_states_fields:
  "process_states C sts m = (r, m') \<Longrightarrow>
     subject m' = subject m \<and> subscriptions m' = subscriptions m \<and> curState m' = curState m \<and>
     name m' = name m \<and> initialState m' = initialState m \<and> initialData m' = initialData m \<and>
     alphabet m' = alphabet m"
proof (induction sts arbitrary: m)
  case Nil
  then show ?case by simp
next
  case (Cons s sts)
  then show ?case
    by (auto split: option.splits)
qed

lemma process_states_mono:
  "process_states C sts m = (r, m') \<Longrightarrow>
     set (states m) \<subseteq> set (states m') \<and>
     set (map fst (transitions m)) \<subseteq> set (map fst (transitions m'))"
proof (induction sts arbitrary: m)
  case Nil
  then show ?case by simp
next
  case (Cons s sts)
  show ?case
  proof (cases "sd_name s")
    case None with Cons.prems show ?thesis by simp
  next
    case (Some nm)
    note nm = this
    show ?thesis
    proof (cases "sd_isAcceptance s")
      case None with nm Cons.prems show ?thesis by simp
    next
      case (Some acc)
      note acc = this
      show ?thesis
      proof (cases "sd_transition s")
        case None with nm acc Cons.prems show ?thesis by simp
      next
        case (Some body)
        note body = this
        show ?thesis
        proof (cases "C body")
          case None with nm acc body Cons.prems show ?thesis by simp
        next
          case (Some fcn)
          let ?m1 = "snd (addTransition nm fcn (addState (Some nm) (truthy acc) m))"
          from Some nm acc body Cons.prems have "process_states C sts ?m1 = (r, m')" by simp
          from Cons.IH[OF this] addState_states_mono[of m "Some nm" "truthy acc"]
            addTransition_keys_mono[of "addState (Some nm) (truthy acc) m" nm fcn]
          show ?thesis by (simp del: set_map) blast
        qed
      qed
    qed
  qed
qed

lemma process_states_inv:
  "process_states C sts m = (r, m') \<Longrightarrow> store_inv m \<Longrightarrow> store_inv m'"
proof (induction sts arbitrary: m)
  case Nil
  then show ?case by simp
next
  case (Cons s sts)
  then show ?case
    by (auto split: option.splits intro: store_inv_addState store_inv_addTransition)
qed

lemma process_states_step [case_names go bad_syntax lacking]:
  obtains
    (go) nm acc body fcn where "sd_name s = Some nm" "sd_isAcceptance s = Some acc"
      "sd_transition s = Some body" "C body = Some fcn"
      "process_states C (s # sts) m =
         process_states C sts (snd (addTransition nm fcn (addState (Some nm) (truthy acc) m)))"
  | (bad_syntax) "process_states C (s # sts) m = (Inl SyntaxError, m)"
  | (lacking) "process_states C (s # sts) m = (Inr (Some s), m)"
proof (cases "sd_name s")
  case None
  then have "process_states C (s # sts) m = (Inr (Some s), m)" by simp
  then show thesis by (rule lacking)
next
  case nm: (Some nm)
  show thesis
  proof (cases "sd_isAcceptance s")
    case None
    with nm have "process_states C (s # sts) m = (Inr (Some s), m)" by simp
    then show thesis by (rule lacking)
  next
    case acc: (Some acc)
    show thesis
    proof (cases "sd_transition s")
      case None
      with nm acc have "process_states C (s # sts) m = (Inr (Some s), m)" by simp
      then show thesis by (rule lacking)
    next
      case body: (Some body)
      show thesis
      proof (cases "C body")
        case None
        with nm acc body have "process_states C (s # sts) m = (Inl SyntaxError, m)" by simp
        then show thesis by (rule bad_syntax)
      next
        case (Some fcn)
        with nm acc body have "process_states C (s # sts) m =
          process_states C sts (snd (addTransition nm fcn (addState (Some nm) (truthy acc) m)))"
          by simp
        with nm acc body Some show thesis by (rule go)
      qed
    qed
  qed
qed

lemma process_states_stopped:
  "process_states C sts m = (Inr (Some st), m') \<Longrightarrow>
     \<exists>pre post. sts = pre @ st # post \<and> process_states C pre m = (Inr None, m')"
proof (induction sts arbitrary: m)
  case Nil
  then show ?case by simp
next
  case (Cons s sts)
  show ?case
  proof (cases rule: process_states_step[of s C sts m])
    case (go nm acc body fcn)
    let ?m1 = "snd (addTransition nm fcn (addState (Some nm) (truthy acc) m))"
    from Cons.prems go(5) have "process_states C sts ?m1 = (Inr (Some st), m')" by simp
    from Cons.IH[OF this] obtain pre post where
      p: "sts = pre @ st # post" "process_states C pre ?m1 = (Inr None, m')" by blast
    from p(1) have a: "s # sts = (s # pre) @ st # post" by simp
    from p(2) go(1-4) have b: "process_states C (s # pre) m = (Inr None, m')" by simp
    from a b show ?thesis by blast
  next
    case bad_syntax
    with Cons.prems show ?thesis by simp
  next
    case lacking
    with Cons.prems have "st = s" "m' = m" by simp_all
    then have "s # sts = [] @ st # sts" "process_states C [] m = (Inr None, m')" by simp_all
    then show ?thesis by blast
  qed
qed

lemma registered_mono:
  assumes "registered sts m" "set (states m) \<subseteq> set (states m')"
    "set (map fst (transitions m)) \<subseteq> set (map fst (transitions m'))"
  shows "registered sts m'"
  unfolding registered_def list_all_iff
proof
  fix p assume "p \<in> set sts"
  with assms(1) have "case sd_name p of None \<Rightarrow> False
     | Some n \<Rightarrow> n \<noteq> [] \<longrightarrow> n \<in> set (states m) \<and> n \<in> set (map fst (transitions m))"
    unfolding registered_def list_all_iff by blast
  with assms(2,3) show "case sd_name p of None \<Rightarrow> False
     | Some n \<Rightarrow> n \<noteq> [] \<longrightarrow> n \<in> set (states m') \<and> n \<in> set (map fst (transitions m'))"
    by (cases "sd_name p") (simp_all del: set_map, blast)
qed

lemma registered_Cons: "registered (s # sts) m \<longleftrightarrow> registered [s] m \<and> registered sts m"
  by (simp add: registered_def)

lemma process_states_registered:
  "process_states C sts m = (Inr None, m') \<Longrightarrow> registered sts m'"
proof (induction sts arbitrary: m)
  case Nil
  then show ?case by (simp add: registered_def)
next
  case (Cons s sts)
  show ?case
  proof (cases rule: process_states_step[of s C sts m])
    case (go nm acc body fcn)
    let ?m0 = "addState (Some nm) (truthy acc) m"
    let ?m1 = "snd (addTransition nm fcn ?m0)"
    from Cons.prems go(5) have ps: "process_states C sts ?m1 = (Inr None, m')" by simp
    have "nm \<noteq> [] \<Longrightarrow> nm \<in> set (states ?m0)" by (simp add: addState_states)
    then have "nm \<noteq> [] \<Longrightarrow> nm \<in> set (states ?m1) \<and> nm \<in> set (map fst (transitions ?m1))"
      by (simp add: addTransition_result)
    then have one: "registered [s] ?m1" by (simp add: registered_def go(1))
    from process_states_mono[OF ps] have "registered [s] m'"
      by (intro registered_mono[OF one]) simp_all
    with Cons.IH[OF ps] show ?thesis by (subst registered_Cons) simp
  next
    case bad_syntax
    with Cons.prems show ?thesis by simp
  next
    case lacking
    with Cons.prems show ?thesis by simp
  qed
qed

subsection \<open>The loader\<close>

lemma load_initialData_fields:
  "load_initialData d m h = (res, m', h') \<Longrightarrow>
     subject m' = subject m \<and> subscriptions m' = subscriptions m \<and> curState m' = curState m \<and>
     name m' = name m \<and> initialState m' = initialState m \<and> alphabet m' = alphabet m \<and>
     states m' = states m \<and> transitions m' = transitions m \<and> acceptanceStates m' = acceptanceStates m \<and>
     (\<exists>ext. h' = h @ ext)"
  by (auto simp: load_initialData_def alloc_def Let_def split: option.splits if_splits)

lemma fromJson_loop:
  assumes "d_name d = Some nm" "d_alphabet d = Some alph" "is_array alph"
    and "d_states d = Some (StateArray sts)" "sts \<noteq> []"
  shows "fromJson C (Some d) m h =
     (case process_states C sts
             (at_loop_entry d m h) of
        (Inl err, m5) \<Rightarrow> (Inl err, m5, h @ [slice alph])
      | (Inr (Some state), m5) \<Rightarrow>
          (Inr \<lparr>success = False, node = Some (StateNode state), action = INVALID_DATA\<rparr>, m5, h @ [slice alph])
      | (Inr None, m5) \<Rightarrow>
          (case load_initialData d m5 (h @ [slice alph]) of (res, m6, h2) \<Rightarrow> (Inr res, m6, h2)))"
  using assms by (simp add: fromJson_def at_loop_entry_def alloc_def Let_def split: prod.splits sum.splits option.splits)

lemma fromJson_early:
  "fromJson C None m h = (Inr \<lparr>success = False, node = None, action = NO_DATA\<rparr>, m, h)"
  "d_name d = None \<or> d_alphabet d = None \<or> d_states d = None \<Longrightarrow>
     fromJson C (Some d) m h = (Inr \<lparr>success = False, node = None, action = MISSING_PROPS\<rparr>, m, h)"
  "d_name d = Some nm \<Longrightarrow> d_alphabet d = Some alph \<Longrightarrow> d_states d = Some sv \<Longrightarrow> \<not> is_array alph \<Longrightarrow>
     fromJson C (Some d) m h = (Inr \<lparr>success = False, node = None, action = INVALID_DATA\<rparr>, m, h)"
  "d_name d = Some nm \<Longrightarrow> d_alphabet d = Some alph \<Longrightarrow> d_states d = Some NotAnArray \<Longrightarrow> is_array alph \<Longrightarrow>
     fromJson C (Some d) m h =
       (Inr \<lparr>success = False, node = None, action = INVALID_DATA\<rparr>, m\<lparr>alphabet := Some (length h)\<rparr>, h @ [slice alph])"
  "d_name d = Some nm \<Longrightarrow> d_alphabet d = Some alph \<Longrightarrow> d_states d = Some (StateArray []) \<Longrightarrow> is_array alph \<Longrightarrow>
     fromJson C (Some d) m h =
       (Inr \<lparr>success = False, node = None, action = NO_STATE\<rparr>, m\<lparr>alphabet := Some (length h)\<rparr>, h @ [slice alph])"
  by (auto simp: fromJson_def alloc_def Let_def)

lemma at_loop_entry_fields [simp]:
  "states (at_loop_entry d m h) = states m"
  "transitions (at_loop_entry d m h) = transitions m"
  "subject (at_loop_entry d m h) = subject m"
  "subscriptions (at_loop_entry d m h) = subscriptions m"
  "acceptanceStates (at_loop_entry d m h) = acceptanceStates m"
  "initialData (at_loop_entry d m h) = initialData m"
  "alphabet (at_loop_entry d m h) = Some (length h)"
  "name (at_loop_entry d m h) = the (d_name d)"
  "initialState (at_loop_entry d m h) = (case d_initialState d of Some s \<Rightarrow> s | None \<Rightarrow> NO_STATE)"
  "curState (at_loop_entry d m h) = (case d_initialState d of Some s \<Rightarrow> s | None \<Rightarrow> NO_STATE)"
  by (simp_all add: at_loop_entry_def)

lemma fromJson_frame:
  assumes "fromJson C data m h = (res, m', h')"
  shows "subject m' = subject m \<and> subscriptions m' = subscriptions m \<and>
         set (states m) \<subseteq> set (states m') \<and>
         set (map fst (transitions m)) \<subseteq> set (map fst (transitions m')) \<and>
         (store_inv m \<longrightarrow> store_inv m') \<and> (\<exists>ext. h' = h @ ext)"
proof (cases data)
  case None
  with assms show ?thesis by (simp add: fromJson_early)
next
  case (Some d)
  show ?thesis
  proof (cases "d_name d = None \<or> d_alphabet d = None \<or> d_states d = None")
    case True
    with assms Some show ?thesis by (simp add: fromJson_early(2))
  next
    case False
    then obtain nm alph sv where f: "d_name d = Some nm" "d_alphabet d = Some alph" "d_states d = Some sv"
      by auto
    show ?thesis
    proof (cases "is_array alph")
      case False
      with assms Some f show ?thesis by (simp add: fromJson_early(3))
    next
      case True
      show ?thesis
      proof (cases sv)
        case NotAnArray
        with assms Some f True show ?thesis by (clarsimp simp: fromJson_early(4) store_inv_def)
      next
        case (StateArray sts)
        show ?thesis
        proof (cases "sts = []")
          case True
          with assms Some f \<open>is_array alph\<close> StateArray show ?thesis
            by (clarsimp simp: fromJson_early(5) store_inv_def)
        next
          case False
          let ?m4 = "at_loop_entry d m h"
          obtain r m5 where ps: "process_states C sts ?m4 = (r, m5)" by (cases "process_states C sts ?m4")
          note fr = process_states_fields[OF ps] process_states_mono[OF ps] process_states_inv[OF ps]
          have inv4: "store_inv m \<Longrightarrow> store_inv ?m4" by (simp add: store_inv_def)
          obtain res6 m6 h6 where li: "load_initialData d m5 (h @ [slice alph]) = (res6, m6, h6)"
            by (cases "load_initialData d m5 (h @ [slice alph])")
          note lf = load_initialData_fields[OF li]
          from assms Some f \<open>is_array alph\<close> StateArray False ps li
          have "(res, m', h') = (case r of Inl err \<Rightarrow> (Inl err, m5, h @ [slice alph])
             | Inr (Some state) \<Rightarrow> (Inr \<lparr>success = False, node = Some (StateNode state), action = INVALID_DATA\<rparr>, m5, h @ [slice alph])
             | Inr None \<Rightarrow> (Inr res6, m6, h6))"
            by (simp add: fromJson_loop split: sum.splits option.splits)
          then have "(m' = m5 \<and> h' = h @ [slice alph]) \<or> (m' = m6 \<and> h' = h6)"
            by (auto split: sum.splits option.splits)
          then consider (loop) "m' = m5" "h' = h @ [slice alph]" | (finished) "m' = m6" "h' = h6"
            by blast
          then show ?thesis
          proof cases
            case loop
            have "subject m5 = subject m" "subscriptions m5 = subscriptions m"
              using fr(1) by simp_all
            moreover have "set (states m) \<subseteq> set (states m5)"
              "set (map fst (transitions m)) \<subseteq> set (map fst (transitions m5))"
              using fr(2) by simp_all
            moreover have "store_inv m \<longrightarrow> store_inv m5" using fr(3) inv4 by blast
            ultimately show ?thesis unfolding loop by blast
          next
            case finished
            have "subject m6 = subject m" "subscriptions m6 = subscriptions m"
              using fr(1) lf by simp_all
            moreover have "set (states m) \<subseteq> set (states m6)"
              "set (map fst (transitions m)) \<subseteq> set (map fst (transitions m6))"
              using fr(2) lf by simp_all
            moreover have "store_inv m \<longrightarrow> store_inv m6"
              using fr(3) inv4 lf by (simp add: store_inv_def)
            moreover have "\<exists>ext. h6 = h @ ext" using lf by auto
            ultimately show ?thesis unfolding finished by blast
          qed
        qed
      qed
    qed
  qed
qed

lemma action_names_distinct:
  "NO_DATA \<noteq> INVALID_DATA" "NO_DATA \<noteq> NO_STATE" "MISSING_PROPS \<noteq> INVALID_DATA"
  "MISSING_PROPS \<noteq> NO_STATE" "NO_DATA \<noteq> MISSING_PROPS" "INVALID_DATA \<noteq> NO_STATE"
  by (simp_all add: NO_DATA_def INVALID_DATA_def NO_STATE_def MISSING_PROPS_def)

lemma fromJson_cases [consumes 1, case_names untouched alphabet_only loop_stopped loaded]:
  assumes run: "fromJson C data m h = (r, m', h')"
  obtains
    (untouched) a where "r = Inr \<lparr>success = False, node = None, action = a\<rparr>"
        "a = NO_DATA \<or> a = MISSING_PROPS \<or> a = INVALID_DATA" "m' = m" "h' = h"
        "a = INVALID_DATA \<longrightarrow> (\<exists>d alph. data = Some d \<and> d_alphabet d = Some alph \<and> \<not> is_array alph)"
  | (alphabet_only) d alph a where "data = Some d" "d_alphabet d = Some alph" "is_array alph"
        "r = Inr \<lparr>success = False, node = None, action = a\<rparr>" "a = INVALID_DATA \<or> a = NO_STATE"
        "m' = m\<lparr>alphabet := Some (length h)\<rparr>" "h' = h @ [slice alph]"
  | (loop_stopped) d nm alph sts r0 where "data = Some d" "d_name d = Some nm"
        "d_alphabet d = Some alph" "is_array alph" "d_states d = Some (StateArray sts)" "sts \<noteq> []"
        "process_states C sts (at_loop_entry d m h) = (r0, m')" "r0 \<noteq> Inr None"
        "r = (case r0 of Inl err \<Rightarrow> Inl err
              | Inr st \<Rightarrow> Inr \<lparr>success = False, node = map_option StateNode st, action = INVALID_DATA\<rparr>)"
        "h' = h @ [slice alph]"
  | (loaded) d nm alph sts m5 res where "data = Some d" "d_name d = Some nm"
        "d_alphabet d = Some alph" "is_array alph" "d_states d = Some (StateArray sts)" "sts \<noteq> []"
        "process_states C sts (at_loop_entry d m h) = (Inr None, m5)"
        "load_initialData d m5 (h @ [slice alph]) = (res, m', h')" "r = Inr res"
proof (cases data)
  case None
  with run have "r = Inr \<lparr>success = False, node = None, action = NO_DATA\<rparr>" "m' = m" "h' = h"
    by (auto simp: fromJson_early)
  then show thesis by (intro untouched[of NO_DATA]) (simp_all add: action_names_distinct)
next
  case (Some d)
  show thesis
  proof (cases "d_name d = None \<or> d_alphabet d = None \<or> d_states d = None")
    case True
    with run Some have "r = Inr \<lparr>success = False, node = None, action = MISSING_PROPS\<rparr>"
      "m' = m" "h' = h"
      by (auto simp: fromJson_early(2))
    then show thesis by (intro untouched[of MISSING_PROPS]) (simp_all add: action_names_distinct)
  next
    case False
    then obtain nm alph sv where f: "d_name d = Some nm" "d_alphabet d = Some alph" "d_states d = Some sv"
      by auto
    show thesis
    proof (cases "is_array alph")
      case False
      with run Some f have "r = Inr \<lparr>success = False, node = None, action = INVALID_DATA\<rparr>"
        "m' = m" "h' = h"
        by (auto simp: fromJson_early(3))
      with Some f False show thesis by (intro untouched[of INVALID_DATA]) simp_all
    next
      case True
      show thesis
      proof (cases sv)
        case NotAnArray
        with run Some f True have "r = Inr \<lparr>success = False, node = None, action = INVALID_DATA\<rparr>"
          "m' = m\<lparr>alphabet := Some (length h)\<rparr>" "h' = h @ [slice alph]"
          by (auto simp: fromJson_early(4))
        with Some f True show thesis by (intro alphabet_only[of d alph INVALID_DATA]) simp_all
      next
        case (StateArray sts)
        show thesis
        proof (cases "sts = []")
          case True
          with run Some f \<open>is_array alph\<close> StateArray
          have "r = Inr \<lparr>success = False, node = None, action = NO_STATE\<rparr>"
            "m' = m\<lparr>alphabet := Some (length h)\<rparr>" "h' = h @ [slice alph]"
            by (auto simp: fromJson_early(5))
          with Some f \<open>is_array alph\<close> show thesis by (intro alphabet_only[of d alph NO_STATE]) simp_all
        next
          case False
          obtain r0 m5 where ps: "process_states C sts (at_loop_entry d m h) = (r0, m5)"
            by (cases "process_states C sts (at_loop_entry d m h)")
          show thesis
          proof (cases "r0 = Inr None")
            case True
            obtain res m6 h6 where li: "load_initialData d m5 (h @ [slice alph]) = (res, m6, h6)"
              by (cases "load_initialData d m5 (h @ [slice alph])")
            from run Some f \<open>is_array alph\<close> StateArray False ps True li
            have "r = Inr res" "m' = m6" "h' = h6" by (auto simp: fromJson_loop)
            with Some f \<open>is_array alph\<close> StateArray False ps True li
            show thesis by (intro loaded[of d nm alph sts m5 res]) simp_all
          next
            case stopped: False
            from run Some f \<open>is_array alph\<close> StateArray False ps stopped
            have "r = (case r0 of Inl err \<Rightarrow> Inl err
              | Inr st \<Rightarrow> Inr \<lparr>success = False, node = map_option StateNode st, action = INVALID_DATA\<rparr>)"
              "m' = m5" "h' = h @ [slice alph]"
              by (auto simp: fromJson_loop split: sum.splits option.splits)
            with Some f \<open>is_array alph\<close> StateArray False ps stopped
            show thesis by (intro loop_stopped[of d nm alph sts r0]) simp_all
          qed
        qed
      qed
    qed
  qed
qed

subsection \<open>Copies and reads\<close>

lemma json_clone_id [simp]: "json_clone v = v"
  by (induction v) (auto intro: map_idI simp: map_prod_def split_def)

lemma slice_id [simp]: "slice v = v"
  by (cases v) simp_all

lemma load_initialData_result:
  "load_initialData d m h =
     (case d_initialData d of
        None \<Rightarrow> (\<lparr>success = True, node = None, action = VALID\<rparr>, m, h)
      | Some v \<Rightarrow>
          if is_object v
          then (\<lparr>success = True, node = None, action = VALID\<rparr>, m\<lparr>initialData := Some (length h)\<rparr>, h @ [v])
          else (\<lparr>success = False, node = Some (ValueNode v), action = INVALID_DATA\<rparr>, m, h))"
  by (simp add: load_initialData_def alloc_def split: option.splits)

lemma read_alphabet_eq: "alphabet m = Some a \<Longrightarrow> read_alphabet m h = Inr (deref h a)"
  by (simp add: read_alphabet_def get_alphabet_def alloc_def deref_def)

lemma read_initialData_eq: "read_initialData m h = map_option (deref h) (initialData m)"
  by (simp add: read_initialData_def get_initialData_def alloc_def deref_def split: option.splits)

lemma fromJson_success:
  assumes "fromJson C (Some d) m h = (Inr res, m', h')" "success res"
  obtains alph sts m5 where
    "d_name d = Some (name m')" "d_alphabet d = Some alph" "is_array alph"
    "d_states d = Some (StateArray sts)" "sts \<noteq> []"
    "process_states C sts (at_loop_entry d m h) = (Inr None, m5)"
    "alphabet m' = Some (length h)"
    "initialState m' = (case d_initialState d of Some s \<Rightarrow> s | None \<Rightarrow> NO_STATE)"
    "curState m' = initialState m'"
    "states m' = states m5" "transitions m' = transitions m5"
    "case d_initialData d of
       None \<Rightarrow> initialData m' = initialData m \<and> h' = h @ [alph]
     | Some v \<Rightarrow> is_object v \<and> initialData m' = Some (Suc (length h)) \<and> h' = h @ [alph, v]"
  using assms(1)
proof (cases rule: fromJson_cases)
  case (untouched a)
  with assms(2) show ?thesis by simp
next
  case (alphabet_only d alph a)
  with assms(2) show ?thesis by simp
next
  case (loop_stopped d nm alph sts r0)
  with assms(2) show ?thesis by (auto split: sum.splits)
next
  case (loaded d0 nm alph sts m5 res0)
  then have d0: "d0 = d" and res0: "res0 = res" by simp_all
  note ps = loaded(7)[unfolded d0]
  note li = loaded(8)[unfolded d0 res0]
  note fr = process_states_fields[OF ps]
  from li assms(2) have cases:
    "case d_initialData d of
       None \<Rightarrow> m' = m5 \<and> h' = h @ [alph]
     | Some v \<Rightarrow> is_object v \<and> m' = m5\<lparr>initialData := Some (Suc (length h))\<rparr> \<and> h' = h @ [alph, v]"
    by (auto simp: load_initialData_result split: option.splits if_splits)
  show ?thesis
  proof (rule that[of alph sts m5])
    show "d_name d = Some (name m')"
      using cases fr loaded(2) d0 by (auto split: option.splits)
    show "d_alphabet d = Some alph" using loaded(3) d0 by simp
    show "is_array alph" by (rule loaded(4))
    show "d_states d = Some (StateArray sts)" using loaded(5) d0 by simp
    show "sts \<noteq> []" by (rule loaded(6))
    show "process_states C sts (at_loop_entry d m h) = (Inr None, m5)" by (rule ps)
    show "alphabet m' = Some (length h)" using cases fr by (auto split: option.splits)
    show "initialState m' = (case d_initialState d of Some s \<Rightarrow> s | None \<Rightarrow> NO_STATE)"
      using cases fr by (auto split: option.splits)
    show "curState m' = initialState m'" using cases fr by (auto split: option.splits)
    show "states m' = states m5" using cases by (auto split: option.splits)
    show "transitions m' = transitions m5" using cases by (auto split: option.splits)
    show "case d_initialData d of
       None \<Rightarrow> initialData m' = initialData m \<and> h' = h @ [alph]
     | Some v \<Rightarrow> is_object v \<and> initialData m' = Some (Suc (length h)) \<and> h' = h @ [alph, v]"
      using cases fr by (auto split: option.splits)
  qed
qed

subsection \<open>Calls and sequences of calls\<close>

lemma fsm_next_frame:
  assumes "fsm_next input st m = (r, sent, m')"
  shows "states m' = states m \<and> transitions m' = transitions m \<and> subject m' = subject m \<and>
         subscriptions m' = subscriptions m \<and> acceptanceStates m' = acceptanceStates m \<and>
         name m' = name m \<and> initialState m' = initialState m \<and> initialData m' = initialData m \<and>
         alphabet m' = alphabet m \<and>
         to_observer ` set sent \<subseteq> snd ` set (observers (subject m))"
proof (cases "map_of (transitions m) (state_in_force st m)")
  case None
  from next_no_rule[OF None, of input] assms show ?thesis by auto
next
  case (Some rule)
  from next_rule[OF Some, of input] assms show ?thesis by (force simp: Let_def)
qed

lemma addSubscriber_frame [simp]:
  "states (addSubscriber ob m) = states m"
  "transitions (addSubscriber ob m) = transitions m"
  "curState (addSubscriber ob m) = curState m"
  by (simp_all add: addSubscriber_def subscribe_def split: option.splits)

lemma addSubscriber_observers:
  "snd ` set (observers (subject (addSubscriber ob m))) =
     snd ` set (observers (subject m)) \<union> (case ob of None \<Rightarrow> {} | Some x \<Rightarrow> {x})"
  by (auto simp: addSubscriber_def subscribe_def split: option.splits)

lemma clear_fields [simp]:
  "states (clear m) = []" "transitions (clear m) = []" "subject (clear m) = new_Subject"
  "subscriptions (clear m) = []" "curState (clear m) = NO_STATE" "acceptanceStates (clear m) = None"
  "initialState (clear m) = NO_STATE" "initialData (clear m) = None" "alphabet (clear m) = None"
  "name (clear m) = name m"
  by (simp_all add: clear_def Let_def)

lemma store_inv_exec: "store_inv (machine w) \<Longrightarrow> store_inv (machine (exec C c w))"
proof (cases c)
  case (AddState n a) then show "store_inv (machine w) \<Longrightarrow> ?thesis" by (simp add: store_inv_addState)
next
  case (AddTransition f t) then show "store_inv (machine w) \<Longrightarrow> ?thesis" by (simp add: store_inv_addTransition)
next
  case (AddSubscriber ob) then show "store_inv (machine w) \<Longrightarrow> ?thesis" by (simp add: store_inv_def)
next
  case (FromJson d)
  assume inv: "store_inv (machine w)"
  obtain r m' h' where f: "fromJson C d (machine w) (store w) = (r, m', h')"
    by (cases "fromJson C d (machine w) (store w)")
  from fromJson_frame[OF f] inv FromJson f show ?thesis by simp
next
  case (Next i st)
  assume inv: "store_inv (machine w)"
  obtain r s m' where f: "fsm_next i st (machine w) = (r, s, m')"
    by (cases "fsm_next i st (machine w)")
  from fsm_next_frame[OF f] inv Next f show ?thesis by (simp add: store_inv_def)
next
  case Clear then show ?thesis by (simp add: store_inv_def)
qed

lemma store_inv_run: "store_inv (machine w) \<Longrightarrow> store_inv (machine (run C cs w))"
  unfolding run_def by (induction cs arbitrary: w) (simp_all add: store_inv_exec)

lemma store_inv_constructor: "store_inv constructor"
  by (simp add: store_inv_def constructor_def)

lemma store_inv_count: "store_inv m \<Longrightarrow> numTransitions m \<le> numStates m"
proof -
  assume a: "store_inv m"
  then have "card (set (map fst (transitions m))) \<le> card (set (states m))"
    unfolding store_inv_def by (intro card_mono) auto
  with a show ?thesis
    unfolding store_inv_def numTransitions_def numStates_def
    by (metis distinct_card length_map)
qed

lemma keys_exec:
  assumes "c \<noteq> Clear"
  shows "set (map fst (transitions (machine w))) \<subseteq> set (map fst (transitions (machine (exec C c w))))"
proof (cases c)
  case (AddState n a) then show ?thesis by simp
next
  case (AddTransition f t) then show ?thesis using addTransition_keys_mono[of "machine w" f t] by simp
next
  case (AddSubscriber ob) then show ?thesis by simp
next
  case (FromJson d)
  obtain r m' h' where f: "fromJson C d (machine w) (store w) = (r, m', h')"
    by (cases "fromJson C d (machine w) (store w)")
  from fromJson_frame[OF f] FromJson f show ?thesis by simp
next
  case (Next i st)
  obtain r s m' where f: "fsm_next i st (machine w) = (r, s, m')"
    by (cases "fsm_next i st (machine w)")
  from fsm_next_frame[OF f] Next f show ?thesis by simp
next
  case Clear with assms show ?thesis by simp
qed

lemma keys_run:
  "Clear \<notin> set cs \<Longrightarrow>
   set (map fst (transitions (machine w))) \<subseteq> set (map fst (transitions (machine (run C cs w))))"
  unfolding run_def
proof (induction cs arbitrary: w)
  case Nil then show ?case by simp
next
  case (Cons c cs)
  then have "c \<noteq> Clear" "Clear \<notin> set cs" by auto
  from keys_exec[OF this(1), of w C] Cons.IH[OF this(2), of "exec C c w"]
  show ?case by (simp del: set_map)
qed

lemma quiet_exec:
  assumes "ob \<notin> snd ` set (observers (subject (machine w)))" "c \<noteq> AddSubscriber (Some ob)"
  shows "ob \<notin> snd ` set (observers (subject (machine (exec C c w)))) \<and>
         deliveries_to ob (exec C c w) = deliveries_to ob w"
proof (cases c)
  case (AddState n a) with assms show ?thesis by (simp add: deliveries_to_def)
next
  case (AddTransition f t) with assms show ?thesis by (simp add: deliveries_to_def)
next
  case (AddSubscriber x)
  with assms show ?thesis
    by (auto simp: deliveries_to_def addSubscriber_observers split: option.splits)
next
  case (FromJson d)
  obtain r m' h' where f: "fromJson C d (machine w) (store w) = (r, m', h')"
    by (cases "fromJson C d (machine w) (store w)")
  from fromJson_frame[OF f] FromJson f assms show ?thesis by (simp add: deliveries_to_def)
next
  case (Next i st)
  obtain r s m' where f: "fsm_next i st (machine w) = (r, s, m')"
    by (cases "fsm_next i st (machine w)")
  from fsm_next_frame[OF f] have "subject m' = subject (machine w)"
    and "to_observer ` set s \<subseteq> snd ` set (observers (subject (machine w)))" by simp_all
  with assms(1) have "filter (\<lambda>d. to_observer d = ob) s = []"
    by (auto simp: filter_empty_conv)
  with \<open>subject m' = subject (machine w)\<close> Next f assms show ?thesis by (simp add: deliveries_to_def)
next
  case Clear then show ?thesis by (simp add: deliveries_to_def new_Subject_def)
qed

lemma quiet_run:
  "ob \<notin> snd ` set (observers (subject (machine w))) \<Longrightarrow> AddSubscriber (Some ob) \<notin> set cs \<Longrightarrow>
   deliveries_to ob (run C cs w) = deliveries_to ob w"
  unfolding run_def
proof (induction cs arbitrary: w)
  case Nil then show ?case by simp
next
  case (Cons c cs)
  then have "c \<noteq> AddSubscriber (Some ob)" "AddSubscriber (Some ob) \<notin> set cs" by auto
  from quiet_exec[OF Cons.prems(1) this(1), of C] Cons.IH[OF _ this(2), of "exec C c w"]
  show ?case by simp
qed

lemma known_exec:
  assumes inv: "known (curState (machine w)) (machine w)" and ok: "validated C c w"
  shows "known (curState (machine (exec C c w))) (machine (exec C c w))"
proof (cases c)
  case (AddState n a)
  with inv addState_states_mono[of "machine w" n a] show ?thesis
    by (auto simp: known_def)
next
  case (AddTransition f t)
  with inv show ?thesis by (simp add: known_def)
next
  case (AddSubscriber ob)
  with inv show ?thesis by (simp add: known_def)
next
  case (FromJson data)
  obtain r m' h' where f: "fromJson C data (machine w) (store w) = (r, m', h')"
    by (cases "fromJson C data (machine w) (store w)")
  then have ex: "machine (exec C (FromJson data) w) = m'" by simp
  from fromJson_frame[OF f] have mono: "set (states (machine w)) \<subseteq> set (states m')" by simp
  have "known (curState m') m'"
    using f
  proof (cases rule: fromJson_cases)
    case (untouched a)
    with inv show ?thesis by simp
  next
    case (alphabet_only d alph a)
    with inv show ?thesis by (simp add: known_def)
  next
    case (loop_stopped d nm alph sts r0)
    from process_states_fields[OF loop_stopped(7)]
    have cur: "curState m' = (case d_initialState d of Some s \<Rightarrow> s | None \<Rightarrow> NO_STATE)" by simp
    show ?thesis
    proof (cases "d_initialState d")
      case None
      with cur show ?thesis by (simp add: known_def)
    next
      case (Some s)
      with ok FromJson loop_stopped(1) ex cur show ?thesis by simp
    qed
  next
    case (loaded d nm alph sts m5 res)
    from process_states_fields[OF loaded(7)] load_initialData_fields[OF loaded(8)]
    have cur: "curState m' = (case d_initialState d of Some s \<Rightarrow> s | None \<Rightarrow> NO_STATE)" by simp
    show ?thesis
    proof (cases "d_initialState d")
      case None
      with cur show ?thesis by (simp add: known_def)
    next
      case (Some s)
      with ok FromJson loaded(1) ex cur show ?thesis by simp
    qed
  qed
  with FromJson ex show ?thesis by simp
next
  case (Next i st)
  let ?m = "machine w"
  show ?thesis
  proof (cases "map_of (transitions ?m) (state_in_force st ?m)")
    case None
    from next_no_rule[OF None, of i]
    have ex: "machine (exec C (Next i st) w) = ?m\<lparr>curState := state_in_force st ?m\<rparr>" by simp
    from inv ok Next have "known (state_in_force st ?m) ?m"
      by (auto simp: state_in_force_def split: option.splits)
    with Next ex show ?thesis by (simp add: known_def)
  next
    case (Some rule)
    from next_rule[OF Some, of i]
    have ex: "machine (exec C (Next i st) w) =
       ?m\<lparr>curState := out_to (rule i (state_in_force st ?m))\<rparr>" by (simp add: Let_def)
    from ok Next Some have "known (out_to (rule i (state_in_force st ?m))) ?m" by simp
    with Next ex show ?thesis by (simp add: known_def)
  qed
next
  case Clear
  then show ?thesis by (simp add: known_def)
qed

lemma known_run:
  "known (curState (machine w)) (machine w) \<Longrightarrow> validated_run C cs w \<Longrightarrow>
   known (curState (machine (run C cs w))) (machine (run C cs w))"
  unfolding run_def
proof (induction cs arbitrary: w)
  case Nil
  then show ?case by simp
next
  case (Cons c cs)
  from Cons.prems have "validated C c w" "validated_run C cs (exec C c w)" by simp_all
  from Cons.IH[OF known_exec[OF Cons.prems(1) this(1)] this(2)] show ?case by simp
qed

text \<open>A reference held by a machine reached from a new one always points into the store, so
  \<open>deref\<close> is never applied outside of it.\<close>

lemma refs_valid_grow:
  "refs_valid m h \<Longrightarrow> initialData m' = initialData m \<Longrightarrow> alphabet m' = alphabet m \<Longrightarrow>
   refs_valid m' (h @ ext)"
  by (auto simp: refs_valid_def split: option.splits)

lemma refs_valid_fromJson:
  assumes f: "fromJson C data m h = (r, m', h')" and v: "refs_valid m h"
  shows "refs_valid m' h'"
  using f
proof (cases rule: fromJson_cases)
  case (untouched a)
  with v show ?thesis by simp
next
  case (alphabet_only d alph a)
  with v show ?thesis by (auto simp: refs_valid_def split: option.splits)
next
  case (loop_stopped d nm alph sts r0)
  from process_states_fields[OF loop_stopped(7)] v loop_stopped(10) show ?thesis
    by (auto simp: refs_valid_def split: option.splits)
next
  case (loaded d nm alph sts m5 res)
  from process_states_fields[OF loaded(7)] v loaded(8) show ?thesis
    by (auto simp: refs_valid_def load_initialData_result split: option.splits if_splits)
qed

lemma refs_valid_exec:
  assumes "refs_valid (machine w) (store w)"
  shows "refs_valid (machine (exec C c w)) (store (exec C c w))"
proof (cases c)
  case (AddState n a)
  with assms show ?thesis by (simp add: refs_valid_def)
next
  case (AddTransition f t)
  with assms show ?thesis by (simp add: refs_valid_def)
next
  case (AddSubscriber ob)
  with assms show ?thesis
    by (simp add: refs_valid_def addSubscriber_def subscribe_def split: option.splits)
next
  case (FromJson data)
  obtain r m' h' where f: "fromJson C data (machine w) (store w) = (r, m', h')"
    by (cases "fromJson C data (machine w) (store w)")
  from refs_valid_fromJson[OF f assms] FromJson f show ?thesis by simp
next
  case (Next i st)
  obtain r s m' where f: "fsm_next i st (machine w) = (r, s, m')"
    by (cases "fsm_next i st (machine w)")
  from fsm_next_frame[OF f] assms Next f show ?thesis by (simp add: refs_valid_def)
next
  case Clear
  then show ?thesis by (simp add: refs_valid_def)
qed

lemma refs_valid_run:
  "refs_valid (machine w) (store w) \<Longrightarrow>
   refs_valid (machine (run C cs w)) (store (run C cs w))"
  unfolding run_def by (induction cs arbitrary: w) (simp_all add: refs_valid_exec)

lemma refs_valid_new_world: "refs_valid (machine (new_world h)) (store (new_world h))"
  by (simp add: refs_valid_def new_world_def constructor_def)

subsection \<open>The concrete machines, evaluated\<close>

lemmas eval_defs =
  run_def new_world_def constructor_def addState_def Set_add_def set_property_def
  addTransition_def addSubscriber_def subscribe_def new_Subject_def fsm_next_def Subject_next_def
  clear_def Let_def

lemmas doc_defs =
  doc_with_data_def doc_without_data_def doc_second_state_broken_def doc_unknown_initial_def
  state_S1_def state_no_rule_def demo_compiler_def

lemmas load_defs =
  fromJson_def load_initialData_def alloc_def

lemma coin_machine_eq:
  "coin_machine =
     \<lparr>name = [], curState = NO_STATE, states = [''q'', ''c''], transitions = [(''q'', to_c)],
      subject = \<lparr>next_handle = 2, observers = [(0, 7), (1, 8)]\<rparr>, subscriptions = [0, 1],
      acceptanceStates = Some [''c''], initialState = NO_STATE, initialData = None,
      alphabet = None\<rparr>"
  by (simp add: coin_machine_def run_def new_world_def constructor_def addState_def Set_add_def
      set_property_def addTransition_def addSubscriber_def subscribe_def new_Subject_def Let_def)

lemma load_first:
  "fromJson demo_compiler (Some doc_with_data) constructor [] =
     (Inr \<lparr>success = True, node = None, action = VALID\<rparr>,
      \<lparr>name = ''First'', curState = ''S1'', states = [''S1''], transitions = [(''S1'', stay)],
       subject = new_Subject, subscriptions = [], acceptanceStates = Some [''S1''],
       initialState = ''S1'', initialData = Some 1, alphabet = Some 0\<rparr>,
      [JArr [JStr ''a'', JStr ''b''], JObj [(''amt'', JNum 68)]])"
  by (simp add: load_defs doc_defs eval_defs)

lemma loaded_world_eq:
  "loaded_world =
     \<lparr>machine =
        \<lparr>name = ''First'', curState = ''S1'', states = [''S1''], transitions = [(''S1'', stay)],
         subject = new_Subject, subscriptions = [], acceptanceStates = Some [''S1''],
         initialState = ''S1'', initialData = Some 1, alphabet = Some 0\<rparr>,
      store = [JArr [JStr ''a'', JStr ''b''], JObj [(''amt'', JNum 68)]], delivered = []\<rparr>"
  using load_first by (simp add: loaded_world_def run_def new_world_def)

lemma load_second:
  "fromJson demo_compiler (Some doc_without_data) (machine loaded_world) (store loaded_world) =
     (Inr \<lparr>success = True, node = None, action = VALID\<rparr>,
      \<lparr>name = ''Second'', curState = NO_STATE, states = [''S1''], transitions = [(''S1'', stay)],
       subject = new_Subject, subscriptions = [], acceptanceStates = Some [''S1''],
       initialState = NO_STATE, initialData = Some 1, alphabet = Some 2\<rparr>,
      [JArr [JStr ''a'', JStr ''b''], JObj [(''amt'', JNum 68)], JArr [JStr ''p'']])"
  by (simp add: loaded_world_eq load_defs doc_defs eval_defs)

lemma reloaded_world_eq:
  "reloaded_world =
     \<lparr>machine =
        \<lparr>name = ''Second'', curState = NO_STATE, states = [''S1''], transitions = [(''S1'', stay)],
         subject = new_Subject, subscriptions = [], acceptanceStates = Some [''S1''],
         initialState = NO_STATE, initialData = Some 1, alphabet = Some 2\<rparr>,
      store = [JArr [JStr ''a'', JStr ''b''], JObj [(''amt'', JNum 68)], JArr [JStr ''p'']],
      delivered = []\<rparr>"
proof -
  have "reloaded_world = exec demo_compiler (FromJson (Some doc_without_data)) loaded_world"
    by (simp add: reloaded_world_def loaded_world_def run_def)
  with load_second show ?thesis by (simp add: loaded_world_eq)
qed

lemma load_broken:
  "fromJson demo_compiler (Some doc_second_state_broken) constructor [] =
     (Inr \<lparr>success = False, node = Some (StateNode state_no_rule), action = INVALID_DATA\<rparr>,
      half_loaded_machine, [JArr [JStr ''a'']])"
  by (simp add: load_defs doc_defs eval_defs half_loaded_machine_def)

lemma validated_calls_run:
  "machine (run demo_compiler validated_calls (new_world [])) =
     \<lparr>name = ''First'', curState = ''S1'', states = [''q'', ''c'', ''S1''],
      transitions = [(''q'', to_c), (''S1'', stay)],
      subject = new_Subject, subscriptions = [], acceptanceStates = Some [''c'', ''S1''],
      initialState = ''S1'', initialData = Some 1, alphabet = Some 0\<rparr>"
  by (simp add: validated_calls_def load_defs doc_defs eval_defs to_c_def)

section \<open>Stepping: publication, payload, absence of a rule\<close>

text \<open>
  Claim C2. When \<^verbatim>\<open>next\<close> finds a rule for the state in force, one and the same event is
  handed to every registration of the channel, in subscription order, within the call. Its
  \<open>ev_from\<close> is the state being left, and each listener still reads that state from the
  machine while it is notified; only the machine that the call returns has moved to the target.
\<close>

theorem next_publishes_before_moving:
  assumes "map_of (transitions m) (state_in_force st m) = Some rule"
  shows "\<exists>res ev m'.
           fsm_next input st m =
             (Some res,
              map (\<lambda>(h, ob). \<lparr>to_observer = ob, event = ev, seen_state = state_in_force st m\<rparr>)
                  (observers (subject m)),
              m') \<and>
           ev_from ev = state_in_force st m \<and>
           ev_to ev = out_to (rule input (state_in_force st m)) \<and>
           currentState m' = out_to (rule input (state_in_force st m))"
proof -
  let ?c = "state_in_force st m"
  let ?ev = "\<lparr>ev_from = ?c, ev_to = out_to (rule input ?c),
               ev_data = (case out_data (rule input ?c) of
                            None \<Rightarrow> JNull
                          | Some d \<Rightarrow> if truthy d then d else JNull)\<rparr>"
  from next_rule[OF assms, of input] obtain res where
    "fsm_next input st m =
       (Some res,
        map (\<lambda>(h, ob). \<lparr>to_observer = ob, event = ?ev, seen_state = ?c\<rparr>) (observers (subject m)),
        m\<lparr>curState := out_to (rule input ?c)\<rparr>)"
    by (simp add: Let_def)
  then show ?thesis
    by (intro exI[of _ res] exI[of _ ?ev] exI[of _ "m\<lparr>curState := out_to (rule input ?c)\<rparr>"])
       (simp add: currentState_def)
qed

theorem next_publishes_before_moving_witness:
  "map_of (transitions coin_machine) (state_in_force (Some ''q'') coin_machine) = Some to_c \<and>
   (\<exists>res ev m'.
      fsm_next (JStr ''coin'') (Some ''q'') coin_machine =
        (Some res,
         [\<lparr>to_observer = 7, event = ev, seen_state = ''q''\<rparr>,
          \<lparr>to_observer = 8, event = ev, seen_state = ''q''\<rparr>], m') \<and>
      ev_from ev = ''q'' \<and> ev_to ev = ''c'' \<and> currentState m' = ''c'')"
proof -
  have h: "map_of (transitions coin_machine) (state_in_force (Some ''q'') coin_machine) = Some to_c"
    by (simp add: coin_machine_eq state_in_force_def)
  from next_publishes_before_moving[OF h, of "JStr ''coin''"] h show ?thesis
    by (simp add: coin_machine_eq state_in_force_def to_c_def)
qed

text \<open>
  Claim C3. When the rule fires, the returned \<open>out_to\<close> is the new current state. A payload
  that is absent or falsy gives \<^verbatim>\<open>null\<close> as the data of every published event and the
  original input as the returned data; a truthy payload is both the data of every published event
  and the returned data.
\<close>

theorem next_payload_defaults:
  assumes "map_of (transitions m) (state_in_force st m) = Some rule"
  shows "\<exists>res sent m'.
           fsm_next input st m = (Some res, sent, m') \<and>
           out_to res = currentState m' \<and>
           (case out_data (rule input (state_in_force st m)) of
              None \<Rightarrow>
                map (\<lambda>d. ev_data (event d)) sent = replicate (length (observers (subject m))) JNull \<and>
                out_data res = Some input
            | Some payload \<Rightarrow>
                if truthy payload
                then map (\<lambda>d. ev_data (event d)) sent = replicate (length (observers (subject m))) payload \<and>
                     out_data res = Some payload
                else map (\<lambda>d. ev_data (event d)) sent = replicate (length (observers (subject m))) JNull \<and>
                     out_data res = Some input)"
  by (simp add: next_rule[OF assms] Let_def currentState_def comp_def split_def map_replicate_const
      split: option.splits)

theorem next_payload_defaults_witness:
  "map_of (transitions coin_machine) (state_in_force (Some ''q'') coin_machine) = Some to_c \<and>
   (\<exists>res sent m'.
      fsm_next (JNum 0) (Some ''q'') coin_machine = (Some res, sent, m') \<and>
      out_to res = currentState m' \<and>
      map (\<lambda>d. ev_data (event d)) sent = [JNull, JNull] \<and> out_data res = Some (JNum 0)) \<and>
   (\<exists>res sent m'.
      fsm_next (JStr ''coin'') (Some ''q'') coin_machine = (Some res, sent, m') \<and>
      out_to res = currentState m' \<and>
      map (\<lambda>d. ev_data (event d)) sent = [JStr ''coin'', JStr ''coin''] \<and>
      out_data res = Some (JStr ''coin''))"
proof -
  have h: "map_of (transitions coin_machine) (state_in_force (Some ''q'') coin_machine) = Some to_c"
    by (simp add: coin_machine_eq state_in_force_def)
  have two: "replicate (length (observers (subject coin_machine))) x = [x, x]" for x :: json
    by (simp add: coin_machine_eq numeral_2_eq_2)
  from next_payload_defaults[OF h, of "JNum 0"] next_payload_defaults[OF h, of "JStr ''coin''"] h
  show ?thesis
    by (simp add: two to_c_def)
qed

text \<open>
  The claim C4 as written says that the current state is unchanged whenever \<^verbatim>\<open>next\<close>
  returns \<^verbatim>\<open>null\<close>. On a new machine, a call that forces the state \<^verbatim>\<open>S9\<close> returns
  \<^verbatim>\<open>null\<close> and leaves the machine in \<^verbatim>\<open>S9\<close>.
\<close>

theorem next_override_kept_counterexample:
  "fst (fsm_next (JObj []) (Some ''S9'') constructor) = None \<and>
   currentState (snd (snd (fsm_next (JObj []) (Some ''S9'') constructor))) = ''S9'' \<and>
   currentState constructor \<noteq> ''S9''"
  by (simp add: fsm_next_def constructor_def currentState_def NO_STATE_def)

text \<open>
  Claim C4, amended. When no rule is registered for the state in force (the forced state if the
  second argument is given and not empty, the current state otherwise), \<^verbatim>\<open>next\<close> returns
  \<^verbatim>\<open>null\<close>, publishes nothing and leaves the current state at the state in force; without a
  forced state the machine is unchanged. This covers the sentinel and a new machine.
\<close>

theorem next_absent_without_rule:
  assumes "map_of (transitions m) (state_in_force st m) = None"
  shows "fsm_next input st m = (None, [], m\<lparr>curState := state_in_force st m\<rparr>) \<and>
         (st = None \<or> st = Some [] \<longrightarrow> fsm_next input st m = (None, [], m))"
  using next_no_rule[OF assms, of input] by (auto simp: state_in_force_def)

theorem next_absent_without_rule_witness:
  "map_of (transitions constructor) (state_in_force None constructor) = None \<and>
   fsm_next (JObj []) None constructor = (None, [], constructor) \<and>
   map_of (transitions coin_machine) (state_in_force (Some ''c'') coin_machine) = None \<and>
   fsm_next (JObj []) (Some ''c'') coin_machine = (None, [], coin_machine\<lparr>curState := ''c''\<rparr>)"
proof -
  have h1: "map_of (transitions constructor) (state_in_force None constructor) = None"
    by (simp add: constructor_def)
  have h2: "map_of (transitions coin_machine) (state_in_force (Some ''c'') coin_machine) = None"
    by (simp add: coin_machine_eq state_in_force_def)
  from next_absent_without_rule[OF h1, of "JObj []"] next_absent_without_rule[OF h2, of "JObj []"]
    h1 h2
  show ?thesis by (simp add: state_in_force_def)
qed

section \<open>Reading the alphabet\<close>

text \<open>
  Claim C8 says that reading \<^verbatim>\<open>alphabet\<close> on a machine that was never loaded, or after
  \<^verbatim>\<open>clear\<close>, returns \<^verbatim>\<open>null\<close>. The accessor calls \<^verbatim>\<open>slice\<close> on the field without
  testing it, so on both machines the read throws a TypeError.
\<close>

theorem alphabet_read_throws:
  "get_alphabet constructor h = (Inl TypeError, h) \<and> get_alphabet (clear m) h = (Inl TypeError, h)"
  by (simp add: get_alphabet_def constructor_def)

section \<open>Clearing the machine\<close>

text \<open>
  Claim C9. After \<^verbatim>\<open>clear\<close> the machine has no state and no transition, is not in an
  acceptance state, holds no alphabet and no initial data, is in the sentinel state, and keeps its
  name. The new channel has no registration, so in every sequence of later calls that does not
  subscribe a listener again, that listener receives nothing more.
\<close>

theorem clear_resets:
  "numStates (clear (machine w)) = 0 \<and> numTransitions (clear (machine w)) = 0 \<and>
   \<not> isAcceptance (clear (machine w)) \<and>
   alphabet (clear (machine w)) = None \<and> initialData (clear (machine w)) = None \<and>
   get_initialData (clear (machine w)) h = (None, h) \<and>
   currentState (clear (machine w)) = NO_STATE \<and>
   name (clear (machine w)) = name (machine w) \<and>
   observers (subject (clear (machine w))) = [] \<and>
   (AddSubscriber (Some ob) \<notin> set cs \<longrightarrow>
      deliveries_to ob (run C cs (exec C Clear w)) = deliveries_to ob w)"
proof -
  have quiet: "ob \<notin> snd ` set (observers (subject (machine (exec C Clear w))))"
    by (simp add: new_Subject_def)
  have "AddSubscriber (Some ob) \<notin> set cs \<Longrightarrow>
        deliveries_to ob (run C cs (exec C Clear w)) = deliveries_to ob w"
    using quiet_run[OF quiet, of cs C] by (simp add: deliveries_to_def)
  then show ?thesis
    by (simp add: numStates_def numTransitions_def isAcceptance_def get_initialData_def
        currentState_def new_Subject_def)
qed

theorem clear_resets_witness:
  "AddSubscriber (Some 7) \<notin> set calls_after_clear \<and>
   deliveries_to 7 world_before_clear =
     [\<lparr>to_observer = 7,
       event = \<lparr>ev_from = ''q'', ev_to = ''c'', ev_data = JStr ''coin''\<rparr>, seen_state = ''q''\<rparr>] \<and>
   deliveries_to 7 (run demo_compiler calls_after_clear (exec demo_compiler Clear world_before_clear)) =
     deliveries_to 7 world_before_clear \<and>
   length (deliveries_to 8
     (run demo_compiler calls_after_clear (exec demo_compiler Clear world_before_clear))) = 1"
proof -
  have h: "AddSubscriber (Some 7) \<notin> set calls_after_clear"
    by (simp add: calls_after_clear_def)
  have a: "deliveries_to 7 world_before_clear =
     [\<lparr>to_observer = 7,
       event = \<lparr>ev_from = ''q'', ev_to = ''c'', ev_data = JStr ''coin''\<rparr>, seen_state = ''q''\<rparr>]"
    by (simp add: world_before_clear_def deliveries_to_def eval_defs to_c_def)
  have b: "length (deliveries_to 8
     (run demo_compiler calls_after_clear (exec demo_compiler Clear world_before_clear))) = 1"
    by (simp add: world_before_clear_def calls_after_clear_def deliveries_to_def eval_defs to_c_def)
  from clear_resets[of world_before_clear "[]" 7 calls_after_clear demo_compiler] h a b
  show ?thesis by simp
qed

section \<open>Registering transitions\<close>

text \<open>
  The claim C5 as written says that \<^verbatim>\<open>addTransition\<close> returns true at most once per state
  name. After the first registration for \<^verbatim>\<open>S1\<close>, a \<^verbatim>\<open>clear\<close> and a new
  \<^verbatim>\<open>addState\<close>, the call returns true for \<^verbatim>\<open>S1\<close> a second time.
\<close>

theorem addTransition_twice_true_counterexample:
  "fst (addTransition ''S1'' stay one_state_machine) \<and>
   fst (addTransition ''S1'' stay recleared_machine)"
  by (simp add: one_state_machine_def recleared_machine_def eval_defs)

text \<open>
  Claim C5, amended. \<^verbatim>\<open>addTransition\<close> returns false exactly when the name is not in the
  state set or already has a rule, and then leaves the machine as it is; otherwise it returns true
  and registers the rule. After a registration, every later attempt for the same name returns
  false as long as the machine is not cleared, and in every machine reached from a new one the
  number of transitions never exceeds the number of states.
\<close>

theorem addTransition_contract:
  "(fst (addTransition from to m) = False \<longleftrightarrow>
      from \<notin> set (get_states m) \<or> map_of (transitions m) from \<noteq> None) \<and>
   (\<not> fst (addTransition from to m) \<longrightarrow> snd (addTransition from to m) = m) \<and>
   (fst (addTransition from to m) \<longrightarrow>
      snd (addTransition from to m) = m\<lparr>transitions := transitions m @ [(from, to)]\<rparr> \<and>
      map_of (transitions (snd (addTransition from to m))) from = Some to) \<and>
   (fst (addTransition from to m) \<longrightarrow> Clear \<notin> set cs \<longrightarrow>
      \<not> fst (addTransition from to'
               (machine (run C cs (w\<lparr>machine := snd (addTransition from to m)\<rparr>))))) \<and>
   numTransitions (machine (run C cs (new_world h))) \<le> numStates (machine (run C cs (new_world h)))"
proof -
  have keys: "map_of (transitions m) from \<noteq> None \<longleftrightarrow> from \<in> set (map fst (transitions m))"
    by (simp add: map_of_eq_None_iff)
  have p1: "fst (addTransition from to m) = False \<longleftrightarrow>
      from \<notin> set (get_states m) \<or> map_of (transitions m) from \<noteq> None"
    unfolding keys by (simp add: addTransition_result get_states_def)
  have p2: "\<not> fst (addTransition from to m) \<longrightarrow> snd (addTransition from to m) = m"
    by (simp add: addTransition_result)
  have p3: "fst (addTransition from to m) \<longrightarrow>
      snd (addTransition from to m) = m\<lparr>transitions := transitions m @ [(from, to)]\<rparr> \<and>
      map_of (transitions (snd (addTransition from to m))) from = Some to"
    by (auto simp: addTransition_result map_of_eq_None_iff[symmetric] map_add_def)
  have p4: "\<not> fst (addTransition from to'
               (machine (run C cs (w\<lparr>machine := snd (addTransition from to m)\<rparr>))))"
    if ok: "fst (addTransition from to m)" and nc: "Clear \<notin> set cs"
  proof -
    let ?w = "w\<lparr>machine := snd (addTransition from to m)\<rparr>"
    from ok have "from \<in> set (map fst (transitions (machine ?w)))"
      by (simp add: addTransition_result split: if_splits)
    with keys_run[OF nc, of ?w C]
    have "from \<in> set (map fst (transitions (machine (run C cs ?w))))" by blast
    then show ?thesis by (simp add: addTransition_result)
  qed
  have p5: "numTransitions (machine (run C cs (new_world h)))
              \<le> numStates (machine (run C cs (new_world h)))"
    by (rule store_inv_count, rule store_inv_run) (simp add: new_world_def store_inv_constructor)
  from p1 p2 p3 p4 p5 show ?thesis by blast
qed

theorem addTransition_contract_witness:
  "fst (addTransition ''S1'' stay one_state_machine) \<and>
   Clear \<notin> set [Next (JObj []) None, AddState (Some ''S2'') False] \<and>
   \<not> fst (addTransition ''S1'' to_c
          (machine (run demo_compiler [Next (JObj []) None, AddState (Some ''S2'') False]
             ((new_world [])\<lparr>machine := snd (addTransition ''S1'' stay one_state_machine)\<rparr>)))) \<and>
   \<not> fst (addTransition ''S9'' stay one_state_machine) \<and>
   snd (addTransition ''S9'' stay one_state_machine) = one_state_machine \<and>
   numTransitions (machine (run demo_compiler [Next (JObj []) None, AddState (Some ''S2'') False]
      (new_world []))) \<le> 1"
proof -
  let ?cs = "[Next (JObj []) None, AddState (Some ''S2'') False]"
  have h1: "fst (addTransition ''S1'' stay one_state_machine)"
    by (simp add: one_state_machine_def eval_defs)
  have h2: "Clear \<notin> set ?cs"
    by simp
  have h3: "\<not> fst (addTransition ''S9'' stay one_state_machine)"
    by (simp add: one_state_machine_def eval_defs)
  have h4: "numStates (machine (run demo_compiler ?cs (new_world []))) = 1"
    by (simp add: numStates_def eval_defs)
  note first = addTransition_contract[of "''S1''" stay one_state_machine ?cs to_c demo_compiler
      "new_world []" "[]"]
  note other = addTransition_contract[of "''S9''" stay one_state_machine ?cs to_c demo_compiler
      "new_world []" "[]"]
  from first h1 h2 have c3: "\<not> fst (addTransition ''S1'' to_c
          (machine (run demo_compiler ?cs
             ((new_world [])\<lparr>machine := snd (addTransition ''S1'' stay one_state_machine)\<rparr>))))"
    by blast
  from other h3 have c5: "snd (addTransition ''S9'' stay one_state_machine) = one_state_machine"
    by blast
  from first have "numTransitions (machine (run demo_compiler ?cs (new_world [])))
      \<le> numStates (machine (run demo_compiler ?cs (new_world [])))"
    by blast
  with h4 have c6: "numTransitions (machine (run demo_compiler ?cs (new_world []))) \<le> 1"
    by simp
  from h1 h2 c3 h3 c5 c6 show ?thesis by blast
qed

section \<open>Loading a document: what is overwritten, what a failure leaves, what is read back\<close>

text \<open>
  The claim C6 as written says that every load resets the initial data. A machine that was loaded
  from a document with initial data and is then loaded, with success, from a document without
  \<^verbatim>\<open>initialData\<close> still returns the first document's data.
\<close>

theorem stale_initialData_counterexample:
  "fst (fromJson demo_compiler (Some doc_without_data) (machine loaded_world) (store loaded_world)) =
     Inr \<lparr>success = True, node = None, action = VALID\<rparr> \<and>
   d_initialData doc_without_data = None \<and>
   read_initialData (machine reloaded_world) (store reloaded_world) = Some (JObj [(''amt'', JNum 68)])"
proof (intro conjI)
  show "fst (fromJson demo_compiler (Some doc_without_data) (machine loaded_world)
          (store loaded_world)) = Inr \<lparr>success = True, node = None, action = VALID\<rparr>"
    by (simp add: load_second)
  show "d_initialData doc_without_data = None"
    by (simp add: doc_without_data_def)
  show "read_initialData (machine reloaded_world) (store reloaded_world) =
          Some (JObj [(''amt'', JNum 68)])"
    by (simp add: reloaded_world_eq read_initialData_def get_initialData_def alloc_def deref_def)
qed

text \<open>
  Claim C6, amended. Every successful load overwrites the name, the initial state (with the
  sentinel when the document has none) and the alphabet with the document's values, whatever the
  machine held before. The initial data is overwritten only when the document carries
  \<^verbatim>\<open>initialData\<close>; otherwise the reference is left as it was and the value held before
  is still what a read returns.
\<close>

theorem fromJson_overwrites:
  assumes "fromJson C (Some d) m h = (Inr res, m', h')" "success res"
  shows "d_name d = Some (name m') \<and>
         get_initialState m' = (case d_initialState d of Some s \<Rightarrow> s | None \<Rightarrow> NO_STATE) \<and>
         map_option Inr (d_alphabet d) = Some (read_alphabet m' h') \<and>
         (case d_initialData d of
            Some v \<Rightarrow> read_initialData m' h' = Some v
          | None \<Rightarrow>
              initialData m' = initialData m \<and>
              (refs_valid m h \<longrightarrow> read_initialData m' h' = read_initialData m h))"
  using assms
proof (cases rule: fromJson_success)
  case (1 alph sts m5)
  have alph: "read_alphabet m' h' = Inr alph"
    using 1(7,12) by (auto simp: read_alphabet_eq deref_def nth_append split: option.splits)
  have data: "case d_initialData d of
            Some v \<Rightarrow> read_initialData m' h' = Some v
          | None \<Rightarrow>
              initialData m' = initialData m \<and>
              (refs_valid m h \<longrightarrow> read_initialData m' h' = read_initialData m h)"
    using 1(12)
    by (auto simp: read_initialData_eq deref_def nth_append refs_valid_def split: option.splits)
  from 1(1,2,8) alph data show ?thesis by (simp add: get_initialState_def)
qed

theorem fromJson_overwrites_witness:
  "fromJson demo_compiler (Some doc_without_data) (machine loaded_world) (store loaded_world) =
     (Inr \<lparr>success = True, node = None, action = VALID\<rparr>, machine reloaded_world, store reloaded_world) \<and>
   success \<lparr>success = True, node = None, action = VALID\<rparr> \<and>
   refs_valid (machine loaded_world) (store loaded_world) \<and>
   name (machine reloaded_world) = ''Second'' \<and>
   get_initialState (machine reloaded_world) = NO_STATE \<and>
   read_alphabet (machine reloaded_world) (store reloaded_world) = Inr (JArr [JStr ''p'']) \<and>
   read_initialData (machine reloaded_world) (store reloaded_world) =
     read_initialData (machine loaded_world) (store loaded_world)"
proof -
  have h1: "fromJson demo_compiler (Some doc_without_data) (machine loaded_world) (store loaded_world) =
     (Inr \<lparr>success = True, node = None, action = VALID\<rparr>, machine reloaded_world, store reloaded_world)"
    by (simp add: load_second reloaded_world_eq)
  have h2: "success \<lparr>success = True, node = None, action = VALID\<rparr>" by simp
  have h3: "refs_valid (machine loaded_world) (store loaded_world)"
    by (simp add: loaded_world_eq refs_valid_def)
  from fromJson_overwrites[OF h1 h2] h1 h2 h3 show ?thesis
    by (simp add: doc_without_data_def)
qed

text \<open>
  The claim C7 as written says that only a failure at the \<^verbatim>\<open>initialData\<close> step leaves
  registrations behind. A document without \<^verbatim>\<open>initialData\<close> whose second descriptor lacks its
  \<^verbatim>\<open>transition\<close> fails at that descriptor, and the state and the rule of the first
  descriptor stay in the machine.
\<close>

theorem fromJson_partial_load_counterexample:
  "fst (fromJson demo_compiler (Some doc_second_state_broken) constructor []) =
     Inr \<lparr>success = False, node = Some (StateNode state_no_rule), action = INVALID_DATA\<rparr> \<and>
   d_initialData doc_second_state_broken = None \<and>
   numStates constructor = 0 \<and> numTransitions constructor = 0 \<and>
   numStates (fst (snd (fromJson demo_compiler (Some doc_second_state_broken) constructor []))) = 1 \<and>
   numTransitions (fst (snd (fromJson demo_compiler (Some doc_second_state_broken) constructor []))) = 1"
proof (intro conjI)
  show "d_initialData doc_second_state_broken = None"
    by (simp add: doc_second_state_broken_def)
next
  show "numStates constructor = 0" "numTransitions constructor = 0"
    by (simp_all add: numStates_def numTransitions_def constructor_def)
qed (simp_all add: load_broken half_loaded_machine_def numStates_def numTransitions_def)

text \<open>
  Claim C7, amended. A failure reported as \<^verbatim>\<open>NO_DATA\<close> or \<^verbatim>\<open>MISSING_PROPS\<close>, or as
  \<^verbatim>\<open>INVALID_DATA\<close> for an alphabet that is not an array, leaves machine and store untouched.
  A failure for the \<^verbatim>\<open>states\<close> value (\<^verbatim>\<open>INVALID_DATA\<close> when it is not an array,
  \<^verbatim>\<open>NO_STATE\<close> when it is empty) has replaced the alphabet and nothing else. A failure at
  a descriptor returns the machine that the loop had reached:
  alphabet, name, initial and current state are overwritten and every descriptor before the
  reported one is registered. A failure at \<^verbatim>\<open>initialData\<close> returns the machine after the
  whole loop, with every descriptor registered.
\<close>

theorem fromJson_failure_effects:
  assumes "fromJson C data m h = (Inr res, m', h')" "\<not> success res"
  shows "(action res = NO_DATA \<or> action res = MISSING_PROPS \<longrightarrow> m' = m \<and> h' = h) \<and>
         (node res = None \<and> action res = INVALID_DATA \<longrightarrow>
            (\<exists>d alph. data = Some d \<and> d_alphabet d = Some alph \<and>
               (if is_array alph then m' = m\<lparr>alphabet := Some (length h)\<rparr> \<and> h' = h @ [alph]
                else m' = m \<and> h' = h))) \<and>
         (action res = NO_STATE \<longrightarrow>
            (\<exists>d alph. data = Some d \<and> d_alphabet d = Some alph \<and>
               m' = m\<lparr>alphabet := Some (length h)\<rparr> \<and> h' = h @ [alph])) \<and>
         (\<forall>st. node res = Some (StateNode st) \<longrightarrow>
            (\<exists>d pre post. data = Some d \<and> d_states d = Some (StateArray (pre @ st # post)) \<and>
               process_states C pre (at_loop_entry d m h) = (Inr None, m') \<and> registered pre m')) \<and>
         (\<forall>v. node res = Some (ValueNode v) \<longrightarrow>
            (\<exists>d sts. data = Some d \<and> d_states d = Some (StateArray sts) \<and> d_initialData d = Some v \<and>
               process_states C sts (at_loop_entry d m h) = (Inr None, m') \<and> registered sts m'))"
  using assms(1)
proof (cases rule: fromJson_cases)
  case (untouched a)
  then show ?thesis using action_names_distinct by auto
next
  case (alphabet_only d alph a)
  then show ?thesis using action_names_distinct by auto
next
  case (loop_stopped d nm alph sts r0)
  from loop_stopped(8,9) obtain st where r0: "r0 = Inr (Some st)"
    and res: "res = \<lparr>success = False, node = Some (StateNode st), action = INVALID_DATA\<rparr>"
    by (cases r0) auto
  from process_states_stopped[OF loop_stopped(7)[unfolded r0]] obtain pre post where
    p: "sts = pre @ st # post" "process_states C pre (at_loop_entry d m h) = (Inr None, m')"
    by blast
  from process_states_registered[OF p(2)] have "registered pre m'" .
  with p loop_stopped(1,5) have "\<exists>d pre post. data = Some d \<and>
      d_states d = Some (StateArray (pre @ st # post)) \<and>
      process_states C pre (at_loop_entry d m h) = (Inr None, m') \<and> registered pre m'"
    by blast
  with res show ?thesis using action_names_distinct by simp
next
  case (loaded d nm alph sts m5 res0)
  from loaded(8,9) assms(2) obtain v where v: "d_initialData d = Some v"
    and res: "res = \<lparr>success = False, node = Some (ValueNode v), action = INVALID_DATA\<rparr>"
    and m': "m' = m5"
    by (auto simp: load_initialData_result split: option.splits if_splits)
  from process_states_registered[OF loaded(7)] have "registered sts m5" .
  with loaded(1,5,7) v m' have "\<exists>d sts. data = Some d \<and> d_states d = Some (StateArray sts) \<and>
      d_initialData d = Some v \<and>
      process_states C sts (at_loop_entry d m h) = (Inr None, m') \<and> registered sts m'"
    by blast
  with res show ?thesis using action_names_distinct by simp
qed

theorem fromJson_failure_effects_witness:
  "fromJson demo_compiler (Some doc_second_state_broken) constructor [] =
     (Inr \<lparr>success = False, node = Some (StateNode state_no_rule), action = INVALID_DATA\<rparr>,
      half_loaded_machine, [JArr [JStr ''a'']]) \<and>
   \<not> success \<lparr>success = False, node = Some (StateNode state_no_rule), action = INVALID_DATA\<rparr> \<and>
   (\<exists>pre post. d_states doc_second_state_broken = Some (StateArray (pre @ state_no_rule # post)) \<and>
      process_states demo_compiler pre (at_loop_entry doc_second_state_broken constructor []) =
        (Inr None, half_loaded_machine) \<and>
      registered pre half_loaded_machine)"
proof -
  have h2: "\<not> success \<lparr>success = False, node = Some (StateNode state_no_rule), action = INVALID_DATA\<rparr>"
    by simp
  from fromJson_failure_effects[OF load_broken h2] load_broken h2 show ?thesis
    by simp
qed

text \<open>
  Claim C10. After a successful load, reading the alphabet gives the document's alphabet, the
  initial state is the document's \<^verbatim>\<open>initialState\<close>, and reading the initial data gives a
  new object equal to the document's \<^verbatim>\<open>initialData\<close>; whatever the caller writes into that
  object, the next read gives the document's value again.
\<close>

theorem fromJson_round_trip:
  assumes "fromJson C (Some d) m h = (Inr res, m', h')" "success res"
  shows "map_option Inr (d_alphabet d) = Some (read_alphabet m' h') \<and>
         (\<forall>s. d_initialState d = Some s \<longrightarrow> get_initialState m' = s) \<and>
         (\<forall>v. d_initialData d = Some v \<longrightarrow>
            (\<exists>r hr. get_initialData m' h' = (Some r, hr) \<and> deref hr r = v \<and>
                    (\<forall>v'. read_initialData m' (mutate r v' hr) = Some v)))"
  using assms
proof (cases rule: fromJson_success)
  case (1 alph sts m5)
  have alph: "read_alphabet m' h' = Inr alph"
    using 1(7,12) by (auto simp: read_alphabet_eq deref_def nth_append split: option.splits)
  have data: "\<exists>r hr. get_initialData m' h' = (Some r, hr) \<and> deref hr r = v \<and>
                    (\<forall>v'. read_initialData m' (mutate r v' hr) = Some v)"
    if v: "d_initialData d = Some v" for v
  proof -
    from 1(12) v have i: "initialData m' = Some (Suc (length h))" and h': "h' = h @ [alph, v]"
      by simp_all
    have g: "get_initialData m' h' = (Some (length h'), h' @ [v])"
      by (simp add: get_initialData_def i h' alloc_def deref_def nth_append)
    have "read_initialData m' (mutate (length h') v' (h' @ [v])) = Some v" for v'
      by (simp add: read_initialData_eq i h' mutate_def deref_def nth_append)
    with g show ?thesis by (simp add: deref_def)
  qed
  from 1(2,8) alph data show ?thesis by (simp add: get_initialState_def)
qed

theorem fromJson_round_trip_witness:
  "fromJson demo_compiler (Some doc_with_data) constructor [] =
     (Inr \<lparr>success = True, node = None, action = VALID\<rparr>, machine loaded_world, store loaded_world) \<and>
   success \<lparr>success = True, node = None, action = VALID\<rparr> \<and>
   read_alphabet (machine loaded_world) (store loaded_world) = Inr (JArr [JStr ''a'', JStr ''b'']) \<and>
   get_initialState (machine loaded_world) = ''S1'' \<and>
   (\<exists>r hr. get_initialData (machine loaded_world) (store loaded_world) = (Some r, hr) \<and>
      deref hr r = JObj [(''amt'', JNum 68)] \<and>
      read_initialData (machine loaded_world) (mutate r (JObj [(''amt'', JNum 0)]) hr) =
        Some (JObj [(''amt'', JNum 68)]))"
proof -
  have h1: "fromJson demo_compiler (Some doc_with_data) constructor [] =
     (Inr \<lparr>success = True, node = None, action = VALID\<rparr>, machine loaded_world, store loaded_world)"
    by (simp add: load_first loaded_world_eq)
  have h2: "success \<lparr>success = True, node = None, action = VALID\<rparr>" by simp
  from fromJson_round_trip[OF h1 h2] h1 h2 show ?thesis
    by (simp add: doc_with_data_def) blast
qed

section \<open>The current state and the state set\<close>

text \<open>
  The claim C1 as written says that the current state is always the sentinel or a member of the
  state set. A call of \<^verbatim>\<open>next\<close> that forces \<^verbatim>\<open>S9\<close> on a new machine, and a load of
  a document whose \<^verbatim>\<open>initialState\<close> is \<^verbatim>\<open>S9\<close> and whose only state is
  \<^verbatim>\<open>S1\<close>, both leave the machine in \<^verbatim>\<open>S9\<close>.
\<close>

theorem currentState_unknown_counterexample:
  "currentState (machine (run demo_compiler [Next (JObj []) (Some ''S9'')] (new_world []))) = ''S9'' \<and>
   ''S9'' \<noteq> NO_STATE \<and>
   ''S9'' \<notin> set (get_states (machine (run demo_compiler [Next (JObj []) (Some ''S9'')] (new_world [])))) \<and>
   currentState (machine (run demo_compiler [FromJson (Some doc_unknown_initial)] (new_world []))) = ''S9'' \<and>
   ''S9'' \<notin> set (get_states (machine (run demo_compiler [FromJson (Some doc_unknown_initial)] (new_world []))))"
  by (simp add: currentState_def get_states_def NO_STATE_def load_defs doc_defs eval_defs)

text \<open>
  Claim C1, amended. Starting from a new machine, after every sequence of calls in which each
  state forced through \<^verbatim>\<open>next\<close>, each target returned by a rule that fires and each
  \<^verbatim>\<open>initialState\<close> of a loaded document is known (the sentinel or a member of the state
  set), the current state is the sentinel or a member of the state set.
\<close>

theorem currentState_known_when_validated:
  assumes "validated_run C cs (new_world h)"
  shows "currentState (machine (run C cs (new_world h))) = NO_STATE \<or>
         currentState (machine (run C cs (new_world h)))
           \<in> set (get_states (machine (run C cs (new_world h))))"
proof -
  have "known (curState (machine (new_world h))) (machine (new_world h))"
    by (simp add: known_def new_world_def constructor_def)
  from known_run[OF this assms] show ?thesis
    by (simp add: known_def currentState_def get_states_def)
qed

theorem currentState_known_when_validated_witness:
  "validated_run demo_compiler validated_calls (new_world []) \<and>
   currentState (machine (run demo_compiler validated_calls (new_world []))) = ''S1'' \<and>
   ''S1'' \<in> set (get_states (machine (run demo_compiler validated_calls (new_world []))))"
proof -
  have h: "validated_run demo_compiler validated_calls (new_world [])"
    by (simp add: validated_calls_def known_def state_in_force_def load_defs doc_defs eval_defs
        to_c_def)
  have c: "currentState (machine (run demo_compiler validated_calls (new_world []))) = ''S1''"
    by (simp add: validated_calls_run currentState_def)
  from currentState_known_when_validated[OF h] h c show ?thesis
    by (simp add: NO_STATE_def)
qed

end
